theory Spec2Isabelle
  imports Complex_Main "HOL-Library.Log_Nat"
begin

section \<open>Python numbers\<close>

text \<open>
  The resolver of \<^verbatim>\<open>video_resize.py\<close> and \<^verbatim>\<open>videoresize_4_1.py\<close> mixes Python's
  unbounded \<^verbatim>\<open>int\<close> with its \<^verbatim>\<open>float\<close> (IEEE 754 binary64). A Python number is
  modelled with its run-time type: \<open>PInt n\<close> is the integer \<open>n\<close>, \<open>PFloat x\<close> the
  finite double whose exact value is the rational \<open>x\<close>. Every float operation returns
  the exact result rounded to the nearest double, ties to even (\<open>fl\<close>); the
  exceptions Python raises are values of \<open>py_error\<close>.

  Infinities and NaN are not values of the model. Python raises \<^verbatim>\<open>OverflowError\<close>
  when an \<^verbatim>\<open>int\<close> is too large to convert to a float and when \<^verbatim>\<open>int / int\<close> is too
  large, and so does the model. A float product or quotient beyond the largest double
  is the value \<^verbatim>\<open>inf\<close> in Python; the model stops there with \<open>NonFinite\<close>, which is
  not an exception of Python but the mark of a run that the development does not
  follow further. Inputs are finite floats.
\<close>

datatype py_error = ZeroDivisionError | OverflowError | SyntaxError | OSError | NonFinite

datatype pynum = PInt int | PFloat rat

fun py_val :: "pynum \<Rightarrow> rat" where
  "py_val (PInt n) = of_int n"
| "py_val (PFloat x) = x"

text \<open>
  \<open>expo x\<close> is the binary exponent of \<open>x \<noteq> 0\<close>: \<open>2 powi expo x \<le> \<bar>x\<bar> < 2 powi (expo x + 1)\<close>.
  It is computed from the bit lengths of the numerator and the denominator.
\<close>

definition expo :: "rat \<Rightarrow> int" where
  "expo x = (let (a, b) = quotient_of \<bar>x\<bar>; k = bitlen a - bitlen b
             in if 2 powi k \<le> \<bar>x\<bar> then k else k - 1)"

text \<open>Rounding to the nearest integer, a tie going to the even neighbour.\<close>

definition round_even :: "rat \<Rightarrow> int" where
  "round_even q = (let f = \<lfloor>q\<rfloor>; d = q - of_int f
                   in if d < 1 / 2 then f else if 1 / 2 < d then f + 1
                      else if even f then f else f + 1)"

text \<open>
  \<open>fl x\<close> is \<open>x\<close> rounded to 53 significant bits: to the nearest multiple of
  \<open>ulp x\<close>, the spacing of the doubles around \<open>x\<close>. Below \<open>2 powi (- 1022)\<close> the
  spacing stays that of the subnormal doubles, \<open>2 powi (- 1074)\<close>.
\<close>

definition ulp :: "rat \<Rightarrow> rat" where
  "ulp x = 2 powi (max (expo x) (- 1022) - 52)"

definition fl :: "rat \<Rightarrow> rat" where
  "fl x = (if x = 0 then 0 else of_int (round_even (x / ulp x)) * ulp x)"

definition finite_double :: "rat \<Rightarrow> bool" where
  "finite_double x = (\<bar>x\<bar> < 2 ^ 1024)"

text \<open>The conversion \<^verbatim>\<open>float(n)\<close> that a mixed operation applies to its \<^verbatim>\<open>int\<close> operand.\<close>

fun to_float :: "pynum \<Rightarrow> py_error + rat" where
  "to_float (PInt n) =
     (let x = fl (of_int n) in if finite_double x then Inr x else Inl OverflowError)"
| "to_float (PFloat x) = Inr x"

text \<open>\<^verbatim>\<open>a / b\<close> on two \<^verbatim>\<open>int\<close>s: the quotient, correctly rounded.\<close>

definition py_truediv :: "int \<Rightarrow> int \<Rightarrow> py_error + pynum" where
  "py_truediv a b =
     (if b = 0 then Inl ZeroDivisionError
      else let x = fl (of_int a / of_int b)
           in if finite_double x then Inr (PFloat x) else Inl OverflowError)"

text \<open>
  \<^verbatim>\<open>a * b\<close>: exact on two \<^verbatim>\<open>int\<close>s, a rounded float product otherwise, after the
  conversion of an \<^verbatim>\<open>int\<close> operand.
\<close>

fun py_mul :: "pynum \<Rightarrow> pynum \<Rightarrow> py_error + pynum" where
  "py_mul (PInt a) (PInt b) = Inr (PInt (a * b))"
| "py_mul a b =
     (case to_float a of Inl e \<Rightarrow> Inl e | Inr x \<Rightarrow>
       (case to_float b of Inl e \<Rightarrow> Inl e | Inr y \<Rightarrow>
          let r = fl (x * y) in if finite_double r then Inr (PFloat r) else Inl NonFinite))"

text \<open>\<^verbatim>\<open>int(x)\<close> truncates towards zero.\<close>

fun py_int :: "pynum \<Rightarrow> int" where
  "py_int (PInt n) = n"
| "py_int (PFloat x) = (if 0 \<le> x then \<lfloor>x\<rfloor> else \<lceil>x\<rceil>)"

text \<open>
  Comparisons between \<^verbatim>\<open>int\<close> and \<^verbatim>\<open>float\<close> compare the exact values.
  \<^verbatim>\<open>min(a, b)\<close> and \<^verbatim>\<open>max(a, b)\<close> return the first argument unless the second
  is strictly smaller (larger); \<^verbatim>\<open>max(a, b, c)\<close> is \<open>py_max (py_max a b) c\<close>.
\<close>

definition py_gt :: "pynum \<Rightarrow> pynum \<Rightarrow> bool" where
  "py_gt a b = (py_val b < py_val a)"

definition py_ne :: "pynum \<Rightarrow> pynum \<Rightarrow> bool" where
  "py_ne a b = (py_val a \<noteq> py_val b)"

definition py_min :: "pynum \<Rightarrow> pynum \<Rightarrow> pynum" where
  "py_min a b = (if py_val b < py_val a then b else a)"

definition py_max :: "pynum \<Rightarrow> pynum \<Rightarrow> pynum" where
  "py_max a b = (if py_val a < py_val b then b else a)"

section \<open>The resize parameter resolver (\<^verbatim>\<open>set_parameters\<close>)\<close>

text \<open>
  \<^verbatim>\<open>configFromArgs\<close> stores the mode \<^verbatim>\<open>"custom"\<close> only together with a pair of
  integers and \<^verbatim>\<open>"divide"\<close> only together with a float, and no other mode reads
  \<^verbatim>\<open>custom_param\<close>; mode and \<^verbatim>\<open>custom_param\<close> are therefore one value.
  \<^verbatim>\<open>limit_direction\<close> is one of \<^verbatim>\<open>"x"\<close>, \<^verbatim>\<open>"y"\<close>, \<^verbatim>\<open>"xy"\<close>.
\<close>

datatype target_mode = Fullhd | Mode4k | Box1920 | Box3840 | Custom int int

datatype resize_mode = ToTarget target_mode | Divide rat

datatype direction = DirX | DirY | DirXY

text \<open>The dictionary \<^verbatim>\<open>preset_sizes\<close> of \<^verbatim>\<open>set_size\<close>, for the modes that have a target size.\<close>

fun preset_sizes :: "target_mode \<Rightarrow> int \<times> int" where
  "preset_sizes Fullhd = (1920, 1080)"
| "preset_sizes Mode4k = (3840, 2160)"
| "preset_sizes Box1920 = (1920, 1920)"
| "preset_sizes Box3840 = (3840, 3840)"
| "preset_sizes (Custom w h) = (w, h)"

text \<open>
  The first \<^verbatim>\<open>if\<close>/\<^verbatim>\<open>elif\<close> of \<^verbatim>\<open>set_size\<close>: the ratio that the mode asks for.
  \<^verbatim>\<open>
  if mode in ("fullhd", "4k", "1920box", "3840box", "custom"):
      target = preset_sizes[mode]
      ratio_w = target_w / origin_w if origin_w > target_w else 1
      ratio_h = target_h / origin_h if origin_h > target_h else 1
      if limit_direction == "x":   ratio = ratio_w
      elif limit_direction == "y": ratio = ratio_h
      else:                        ratio = min(ratio_w, ratio_h)
  elif mode == "divide":
      ratio = custom_param
  \<close>
\<close>

definition axis_ratio :: "int \<Rightarrow> int \<Rightarrow> py_error + pynum" where
  "axis_ratio target origin =
     (if origin > target then py_truediv target origin else Inr (PInt 1))"

definition target_ratio :: "int \<times> int \<Rightarrow> int \<times> int \<Rightarrow> direction \<Rightarrow> py_error + pynum" where
  "target_ratio origin_size target limit_direction =
     (case axis_ratio (fst target) (fst origin_size) of Inl e \<Rightarrow> Inl e | Inr ratio_w \<Rightarrow>
       (case axis_ratio (snd target) (snd origin_size) of Inl e \<Rightarrow> Inl e | Inr ratio_h \<Rightarrow>
          Inr (case limit_direction of
                 DirX \<Rightarrow> ratio_w
               | DirY \<Rightarrow> ratio_h
               | DirXY \<Rightarrow> py_min ratio_w ratio_h)))"

fun mode_ratio :: "int \<times> int \<Rightarrow> resize_mode \<Rightarrow> direction \<Rightarrow> py_error + pynum" where
  "mode_ratio origin_size (ToTarget m) limit_direction =
     target_ratio origin_size (preset_sizes m) limit_direction"
| "mode_ratio origin_size (Divide r) limit_direction = Inr (PFloat r)"

text \<open>
  \<^verbatim>\<open>(int(origin_w * ratio), int(origin_h * ratio))\<close>; \<^verbatim>\<open>int(inf)\<close> raises
  \<^verbatim>\<open>OverflowError\<close>.
\<close>

definition scale :: "int \<Rightarrow> pynum \<Rightarrow> py_error + int" where
  "scale origin ratio =
     (case py_mul (PInt origin) ratio of
        Inl NonFinite \<Rightarrow> Inl OverflowError
      | Inl e \<Rightarrow> Inl e
      | Inr p \<Rightarrow> Inr (py_int p))"

definition scale_size :: "int \<times> int \<Rightarrow> pynum \<Rightarrow> py_error + int \<times> int" where
  "scale_size origin_size ratio =
     (case scale (fst origin_size) ratio of Inl e \<Rightarrow> Inl e | Inr new_w \<Rightarrow>
       (case scale (snd origin_size) ratio of Inl e \<Rightarrow> Inl e | Inr new_h \<Rightarrow>
          Inr (new_w, new_h)))"

text \<open>
  The minimum-size adjustment of \<^verbatim>\<open>set_size\<close>:
  \<^verbatim>\<open>
  if new_w < min_w or new_h < min_h:
      ratio_w = min_w / origin_w
      ratio_h = min_h / origin_h
      if limit_direction == "x":   ratio = max(ratio, ratio_w)
      elif limit_direction == "y": ratio = max(ratio, ratio_h)
      else:                        ratio = max(ratio, ratio_w, ratio_h)
      new_w = int(origin_w * ratio)
      new_h = int(origin_h * ratio)
  \<close>
  \<open>below_min\<close> is the condition, \<open>min_ratio\<close> the new ratio.
\<close>

definition below_min :: "int \<times> int \<Rightarrow> int \<times> int \<Rightarrow> bool" where
  "below_min new_size min_size = (fst new_size < fst min_size \<or> snd new_size < snd min_size)"

definition min_ratio :: "int \<times> int \<Rightarrow> int \<times> int \<Rightarrow> direction \<Rightarrow> pynum \<Rightarrow> py_error + pynum" where
  "min_ratio origin_size min_size limit_direction ratio =
     (case py_truediv (fst min_size) (fst origin_size) of Inl e \<Rightarrow> Inl e | Inr ratio_w \<Rightarrow>
       (case py_truediv (snd min_size) (snd origin_size) of Inl e \<Rightarrow> Inl e | Inr ratio_h \<Rightarrow>
          Inr (case limit_direction of
                 DirX \<Rightarrow> py_max ratio ratio_w
               | DirY \<Rightarrow> py_max ratio ratio_h
               | DirXY \<Rightarrow> py_max (py_max ratio ratio_w) ratio_h)))"

text \<open>\<open>resized\<close> is the size \<^verbatim>\<open>(new_w, new_h)\<close> that reaches the final adjustment to even numbers.\<close>

definition resized :: "int \<times> int \<Rightarrow> resize_mode \<Rightarrow> int \<times> int \<Rightarrow> direction \<Rightarrow> py_error + int \<times> int" where
  "resized origin_size mode min_size limit_direction =
     (case mode_ratio origin_size mode limit_direction of Inl e \<Rightarrow> Inl e | Inr ratio \<Rightarrow>
       (case scale_size origin_size ratio of Inl e \<Rightarrow> Inl e | Inr new_size \<Rightarrow>
          if below_min new_size min_size then
            (case min_ratio origin_size min_size limit_direction ratio of
               Inl e \<Rightarrow> Inl e
             | Inr ratio' \<Rightarrow> scale_size origin_size ratio')
          else Inr new_size))"

text \<open>
  \<^verbatim>\<open>
  if new_w % 2 == 1: new_w += 1
  if new_h % 2 == 1: new_h += 1
  return (new_w, new_h)
  \<close>
  Python's \<^verbatim>\<open>%\<close> with a positive modulus is never negative, like \<open>mod\<close> on \<open>int\<close>.
\<close>

definition even_up :: "int \<Rightarrow> int" where
  "even_up n = (if n mod 2 = 1 then n + 1 else n)"

definition set_size :: "int \<times> int \<Rightarrow> resize_mode \<Rightarrow> int \<times> int \<Rightarrow> direction \<Rightarrow> py_error + int \<times> int" where
  "set_size origin_size mode min_size limit_direction =
     (case resized origin_size mode min_size limit_direction of
        Inl e \<Rightarrow> Inl e
      | Inr (new_w, new_h) \<Rightarrow> Inr (even_up new_w, even_up new_h))"

text \<open>
  \<^verbatim>\<open>set_bit_rate\<close> of \<^verbatim>\<open>videoresize_4_1.py\<close>, with its inner \<^verbatim>\<open>bitrateFromBPP\<close>:
  \<^verbatim>\<open>
  bitrate = bpp * width * height * fps
  calculated_bitrate = bitrateFromBPP(cfg_bpp, cfg_width, cfg_height, cfg_fps)
  return calculated_bitrate if origin_bitrate > calculated_bitrate else origin_bitrate
  \<close>
  The product associates to the left.
\<close>

definition bitrateFromBPP :: "rat \<Rightarrow> int \<Rightarrow> int \<Rightarrow> pynum \<Rightarrow> py_error + pynum" where
  "bitrateFromBPP bpp width height fps =
     (case py_mul (PFloat bpp) (PInt width) of Inl e \<Rightarrow> Inl e | Inr p1 \<Rightarrow>
       (case py_mul p1 (PInt height) of Inl e \<Rightarrow> Inl e | Inr p2 \<Rightarrow> py_mul p2 fps))"

definition set_bit_rate :: "int \<Rightarrow> rat \<Rightarrow> int \<Rightarrow> int \<Rightarrow> pynum \<Rightarrow> py_error + pynum" where
  "set_bit_rate origin_bitrate cfg_bpp cfg_width cfg_height cfg_fps =
     (case bitrateFromBPP cfg_bpp cfg_width cfg_height cfg_fps of
        Inl e \<Rightarrow> Inl e
      | Inr calculated_bitrate \<Rightarrow>
          Inr (if py_gt (PInt origin_bitrate) calculated_bitrate
               then calculated_bitrate else PInt origin_bitrate))"

text \<open>
  \<^verbatim>\<open>set_bit_rate\<close> of \<^verbatim>\<open>video_resize.py\<close>, where the configuration holds the cap itself:
  \<^verbatim>\<open>return config_bitrate if origin_bitrate > config_bitrate else origin_bitrate\<close>
\<close>

definition set_bit_rate_cap :: "int \<Rightarrow> int \<Rightarrow> int" where
  "set_bit_rate_cap origin_bitrate config_bitrate =
     (if origin_bitrate > config_bitrate then config_bitrate else origin_bitrate)"

text \<open>\<^verbatim>\<open>return config_fps if origin_fps > config_fps else origin_fps\<close>\<close>

definition set_fps :: "pynum \<Rightarrow> pynum \<Rightarrow> pynum" where
  "set_fps origin_fps config_fps = (if py_gt origin_fps config_fps then config_fps else origin_fps)"

text \<open>
  The entries of \<^verbatim>\<open>video_info_dict\<close>, of \<^verbatim>\<open>config_dict\<close> (the keys the resolver and the
  executor read) and of \<^verbatim>\<open>resize_param_dict\<close>.
\<close>

record video_info =
  v_size :: "int \<times> int"
  v_bit_rate :: int
  v_avg_frame_rate :: pynum

record config =
  c_mode :: resize_mode
  c_limit_direction :: direction
  c_min_size :: "int \<times> int"
  c_fps :: pynum
  c_bpp :: rat
  c_nochange_copy :: bool

record resize_param =
  p_size :: "int \<times> int"
  p_bit_rate :: pynum
  p_fps :: pynum
  change_required :: bool
  orig_size :: "int \<times> int"
  orig_bit_rate :: int
  orig_fps :: pynum

text \<open>
  The body of the loop of \<^verbatim>\<open>set_parameters\<close> in \<^verbatim>\<open>videoresize_4_1.py\<close>, for one video:
  \<^verbatim>\<open>
  new_size = set_size(orig_size, mode, custom_param, min_size, limit_direction)
  new_fps = set_fps(orig_fps, config_dict["fps"])
  new_bitrate = set_bit_rate(orig_bitrate, config_dict["bpp"], new_size[0], new_size[1], new_fps)
  change_required = (new_size != orig_size) or (new_bitrate != orig_bitrate) or (new_fps != orig_fps)
  \<close>
\<close>

definition set_parameters :: "config \<Rightarrow> video_info \<Rightarrow> py_error + resize_param" where
  "set_parameters cfg info =
     (case set_size (v_size info) (c_mode cfg) (c_min_size cfg) (c_limit_direction cfg) of
        Inl e \<Rightarrow> Inl e
      | Inr new_size \<Rightarrow>
          let new_fps = set_fps (v_avg_frame_rate info) (c_fps cfg) in
          (case set_bit_rate (v_bit_rate info) (c_bpp cfg) (fst new_size) (snd new_size) new_fps of
             Inl e \<Rightarrow> Inl e
           | Inr new_bitrate \<Rightarrow>
               Inr \<lparr> p_size = new_size, p_bit_rate = new_bitrate, p_fps = new_fps,
                     change_required =
                       (new_size \<noteq> v_size info \<or> py_ne new_bitrate (PInt (v_bit_rate info))
                        \<or> py_ne new_fps (v_avg_frame_rate info)),
                     orig_size = v_size info, orig_bit_rate = v_bit_rate info,
                     orig_fps = v_avg_frame_rate info \<rparr>))"

section \<open>The metadata probe: \<^verbatim>\<open>avg_frame_rate\<close> (\<^verbatim>\<open>get_infoDict\<close>)\<close>

text \<open>
  Both files read the frame rate with
  \<^verbatim>\<open>float(eval(info["avg_frame_rate"])) if "avg_frame_rate" in info else 0.0\<close>.
  \<^verbatim>\<open>eval\<close> is Python's expression evaluator. It is modelled on a fragment of Python's
  expressions: decimal integer literals joined by the left-associative operators
  \<^verbatim>\<open>/\<close> and \<^verbatim>\<open>*\<close>, without white space. On a string of the fragment \<open>py_eval\<close>
  returns what \<^verbatim>\<open>eval\<close> returns or raises; on any other string it returns \<open>None\<close>,
  which says nothing about what \<^verbatim>\<open>eval\<close> does there. Outside the fragment are also
  an empty operand (\<^verbatim>\<open>//\<close> and \<^verbatim>\<open>**\<close> are operators of their own) and a literal of
  more than 4300 digits (refused by Python 3.11).
\<close>

definition is_digit :: "char \<Rightarrow> bool" where
  "is_digit c = (c \<in> set ''0123456789'')"

definition is_operator :: "char \<Rightarrow> bool" where
  "is_operator c = (c = CHR ''/'' \<or> c = CHR ''*'')"

definition digit_val :: "char \<Rightarrow> int" where
  "digit_val c = of_char c - 48"

definition dec :: "string \<Rightarrow> int" where
  "dec ds = foldl (\<lambda>n c. 10 * n + digit_val c) 0 ds"

text \<open>Python 3 refuses a decimal literal that starts with a zero, unless it is all zeros.\<close>

definition literal_ok :: "string \<Rightarrow> bool" where
  "literal_ok ds = (ds \<noteq> [] \<and> (hd ds \<noteq> CHR ''0'' \<or> list_all (\<lambda>c. c = CHR ''0'') ds))"

definition numeral_string :: "string \<Rightarrow> bool" where
  "numeral_string ds = (ds \<noteq> [] \<and> list_all is_digit ds \<and> length ds \<le> 4300)"

text \<open>The first operand, and each operator with the operand that follows it.\<close>

fun split_ops :: "string \<Rightarrow> string \<times> (char \<times> string) list" where
  "split_ops [] = ([], [])"
| "split_ops (c # cs) =
     (let (d, rest) = split_ops cs
      in if is_operator c then ([], (c, d) # rest) else (c # d, rest))"

text \<open>\<^verbatim>\<open>a / b\<close> on any two numbers.\<close>

fun py_div :: "pynum \<Rightarrow> pynum \<Rightarrow> py_error + pynum" where
  "py_div (PInt a) (PInt b) = py_truediv a b"
| "py_div a b =
     (case to_float a of Inl e \<Rightarrow> Inl e | Inr x \<Rightarrow>
       (case to_float b of Inl e \<Rightarrow> Inl e | Inr y \<Rightarrow>
          if y = 0 then Inl ZeroDivisionError
          else let r = fl (x / y) in if finite_double r then Inr (PFloat r) else Inl NonFinite))"

fun eval_ops :: "pynum \<Rightarrow> (char \<times> string) list \<Rightarrow> py_error + pynum" where
  "eval_ops acc [] = Inr acc"
| "eval_ops acc ((c, d) # rest) =
     (case (if c = CHR ''/'' then py_div acc (PInt (dec d)) else py_mul acc (PInt (dec d))) of
        Inl e \<Rightarrow> Inl e
      | Inr v \<Rightarrow> eval_ops v rest)"

definition py_eval :: "string \<Rightarrow> (py_error + pynum) option" where
  "py_eval s =
     (let (d, rest) = split_ops s
      in if list_all numeral_string (d # map snd rest)
         then (if list_all literal_ok (d # map snd rest)
               then Some (eval_ops (PInt (dec d)) rest)
               else Some (Inl SyntaxError))
         else None)"

text \<open>\<^verbatim>\<open>float(v)\<close> on a number.\<close>

definition py_float :: "pynum \<Rightarrow> py_error + pynum" where
  "py_float v = (case to_float v of Inl e \<Rightarrow> Inl e | Inr x \<Rightarrow> Inr (PFloat x))"

text \<open>The entry \<^verbatim>\<open>"avg_frame_rate"\<close>; the argument is \<^verbatim>\<open>info.get("avg_frame_rate")\<close>.\<close>

definition avg_frame_rate :: "string option \<Rightarrow> (py_error + pynum) option" where
  "avg_frame_rate field =
     (case field of
        None \<Rightarrow> Some (Inr (PFloat 0))
      | Some s \<Rightarrow>
          (case py_eval s of
             None \<Rightarrow> None
           | Some (Inl e) \<Rightarrow> Some (Inl e)
           | Some (Inr v) \<Rightarrow> Some (py_float v)))"

text \<open>
  What the specification asks for instead: the string is split at the \<^verbatim>\<open>/\<close> into a
  numerator and a denominator, both are read as integers and divided; a string that
  is not of this form is refused (\<open>None\<close>) rather than evaluated. This definition
  follows the specification's words, not the source.
\<close>

definition split_rational :: "string \<Rightarrow> (string \<times> string) option" where
  "split_rational s =
     (let n = takeWhile (\<lambda>c. c \<noteq> CHR ''/'') s; r = dropWhile (\<lambda>c. c \<noteq> CHR ''/'') s
      in if r \<noteq> [] \<and> numeral_string n \<and> numeral_string (tl r) then Some (n, tl r) else None)"

definition parse_rational :: "string \<Rightarrow> (py_error + pynum) option" where
  "parse_rational s =
     (case split_rational s of
        None \<Rightarrow> None
      | Some (n, d) \<Rightarrow> Some (py_truediv (dec n) (dec d)))"

section \<open>The conversion executor (\<^verbatim>\<open>resize\<close>)\<close>

text \<open>
  The file system is a map from paths to contents; the size of a file is the length
  of its content. Directories and time stamps are not modelled. The external encoder
  (\<^verbatim>\<open>subprocess.run\<close> on the \<^verbatim>\<open>ffmpeg\<close> command line) is a parameter: given the
  file system and the command's arguments it either raises or exits with a return
  code, and in both cases says which content, if any, it left at the output path.
  It writes nowhere else. The invocation is the synchronous one of the empty
  command prefix. Reading or copying a file fails only when the file is missing;
  other input and output errors are not modelled.
\<close>

type_synonym path = string

type_synonym bytes = "nat list"

type_synonym file_system = "path \<Rightarrow> bytes option"

datatype enc_result = EncRaised "bytes option" | EncExited int "bytes option"

type_synonym encoder = "file_system \<Rightarrow> path \<Rightarrow> resize_param \<Rightarrow> path \<Rightarrow> enc_result"

fun enc_output :: "enc_result \<Rightarrow> bytes option" where
  "enc_output (EncRaised out) = out"
| "enc_output (EncExited rc out) = out"

definition write_output :: "file_system \<Rightarrow> path \<Rightarrow> bytes option \<Rightarrow> file_system" where
  "write_output fs output_path out =
     (case out of None \<Rightarrow> fs | Some c \<Rightarrow> fs(output_path \<mapsto> c))"

text \<open>\<^verbatim>\<open>os.path.getsize\<close> and \<^verbatim>\<open>shutil.copy2\<close> raise \<^verbatim>\<open>OSError\<close> on a missing file: \<open>None\<close>.\<close>

definition getsize :: "file_system \<Rightarrow> path \<Rightarrow> nat option" where
  "getsize fs p = map_option length (fs p)"

definition copy2 :: "file_system \<Rightarrow> path \<Rightarrow> path \<Rightarrow> file_system option" where
  "copy2 fs src dst = (case fs src of None \<Rightarrow> None | Some c \<Rightarrow> Some (fs(dst \<mapsto> c)))"

text \<open>
  What the run writes to its log, one event for each logging call that matters here;
  \<open>Eta idx processed_bytes total_bytes\<close> is the call
  \<^verbatim>\<open>calculate_estimated_finish_time(processed_bytes, total_bytes, resize_start_time)\<close>
  followed by the log line of video \<open>idx + 1\<close>.
\<close>

datatype event =
    SkipExists path
  | NoChange path
  | Copied path
  | CopyFailed path
  | SkipNoCopy path
  | Encode path
  | EncodeFailed path
  | OversizeCopied path
  | KeptConverted path
  | SizeCheckFailed path
  | Eta nat int int

record run_state =
  files :: file_system
  total_bytes :: int
  processed_bytes :: int
  num_deletedVideos :: nat
  events :: "event list"

definition say :: "event \<Rightarrow> run_state \<Rightarrow> run_state" where
  "say e st = st\<lparr>events := events st @ [e]\<rparr>"

definition eta :: "nat \<Rightarrow> run_state \<Rightarrow> run_state" where
  "eta idx st = say (Eta idx (processed_bytes st) (total_bytes st)) st"

text \<open>
  The two branches of the loop body that do not encode, in \<^verbatim>\<open>videoresize_4_1.py\<close>:
  \<^verbatim>\<open>
  num_deletedVideos += 1
  total_bytes -= os.path.getsize(path)
  \<close>
  and, at the end of each, the estimate and \<^verbatim>\<open>continue\<close>.
\<close>

definition discount :: "path \<Rightarrow> run_state \<Rightarrow> py_error + run_state" where
  "discount p st =
     (case getsize (files st) p of
        None \<Rightarrow> Inl OSError
      | Some sz \<Rightarrow>
          Inr (st\<lparr>num_deletedVideos := num_deletedVideos st + 1,
                   total_bytes := total_bytes st - int sz\<rparr>))"

definition skip_existing :: "nat \<Rightarrow> path \<Rightarrow> path \<Rightarrow> run_state \<Rightarrow> py_error + run_state" where
  "skip_existing idx p output_path st =
     (case discount p (say (SkipExists output_path) st) of
        Inl e \<Rightarrow> Inl e
      | Inr st1 \<Rightarrow> Inr (eta idx st1))"

definition no_change :: "bool \<Rightarrow> nat \<Rightarrow> path \<Rightarrow> path \<Rightarrow> run_state \<Rightarrow> py_error + run_state" where
  "no_change nochange_copy idx p output_path st =
     (case discount p (say (NoChange p) st) of
        Inl e \<Rightarrow> Inl e
      | Inr st1 \<Rightarrow>
          Inr (eta idx
            (if nochange_copy
             then (case copy2 (files st1) p output_path of
                     Some fs' \<Rightarrow> say (Copied output_path) (st1\<lparr>files := fs'\<rparr>)
                   | None \<Rightarrow> say (CopyFailed p) st1)
             else say (SkipNoCopy p) st1)))"

text \<open>
  The check after a successful encoder run, inside its \<^verbatim>\<open>try\<close>:
  \<^verbatim>\<open>
  input_size = os.path.getsize(path)
  output_size = os.path.getsize(output_path)
  if output_size > input_size:
      shutil.copy2(path, output_path)
  else:
      self.copy_file_times(path, output_path)
  \<close>
  Any exception in it is logged and the run goes on.
\<close>

definition size_check :: "path \<Rightarrow> path \<Rightarrow> run_state \<Rightarrow> run_state" where
  "size_check p output_path st =
     (case getsize (files st) p of
        None \<Rightarrow> say (SizeCheckFailed output_path) st
      | Some input_size \<Rightarrow>
          (case getsize (files st) output_path of
             None \<Rightarrow> say (SizeCheckFailed output_path) st
           | Some output_size \<Rightarrow>
               if output_size > input_size
               then (case copy2 (files st) p output_path of
                       Some fs' \<Rightarrow> say (OversizeCopied output_path) (st\<lparr>files := fs'\<rparr>)
                     | None \<Rightarrow> say (SizeCheckFailed output_path) st)
               else say (KeptConverted output_path) st))"

text \<open>
  The encoding branch. A launch failure and a return code other than zero are logged
  and followed by \<^verbatim>\<open>continue\<close>; otherwise the size check, then
  \<^verbatim>\<open>processed_bytes += os.path.getsize(path)\<close> and the estimate.
\<close>

definition convert :: "encoder \<Rightarrow> nat \<Rightarrow> path \<Rightarrow> resize_param \<Rightarrow> path \<Rightarrow> run_state \<Rightarrow> py_error + run_state" where
  "convert enc idx p params output_path st =
     (let st1 = say (Encode output_path) st;
          r = enc (files st) p params output_path;
          st2 = st1\<lparr>files := write_output (files st) output_path (enc_output r)\<rparr>
      in case r of
           EncRaised out \<Rightarrow> Inr (say (EncodeFailed p) st2)
         | EncExited rc out \<Rightarrow>
             if rc \<noteq> 0 then Inr (say (EncodeFailed p) st2)
             else let st3 = size_check p output_path st2
                  in (case getsize (files st3) p of
                        None \<Rightarrow> Inl OSError
                      | Some sz \<Rightarrow>
                          Inr (eta idx (st3\<lparr>processed_bytes := processed_bytes st3 + int sz\<rparr>))))"

text \<open>
  One iteration of the loop over \<^verbatim>\<open>resize_param_dict.items()\<close>; \<open>outp\<close> is the
  computation of \<^verbatim>\<open>output_path\<close> from the source path.
\<close>

definition resize_step ::
  "encoder \<Rightarrow> (path \<Rightarrow> path) \<Rightarrow> bool \<Rightarrow> nat \<Rightarrow> path \<times> resize_param \<Rightarrow> run_state \<Rightarrow> py_error + run_state" where
  "resize_step enc outp nochange_copy idx a st =
     (let p = fst a; params = snd a; output_path = outp p
      in if files st output_path \<noteq> None then skip_existing idx p output_path st
         else if \<not> change_required params then no_change nochange_copy idx p output_path st
         else convert enc idx p params output_path st)"

fun resize_loop ::
  "encoder \<Rightarrow> (path \<Rightarrow> path) \<Rightarrow> bool \<Rightarrow> nat \<Rightarrow> (path \<times> resize_param) list \<Rightarrow> run_state \<Rightarrow> py_error + run_state" where
  "resize_loop enc outp nochange_copy idx [] st = Inr st"
| "resize_loop enc outp nochange_copy idx (a # as) st =
     (case resize_step enc outp nochange_copy idx a st of
        Inl e \<Rightarrow> Inl e
      | Inr st' \<Rightarrow> resize_loop enc outp nochange_copy (Suc idx) as st')"

text \<open>\<^verbatim>\<open>total_bytes = sum(os.path.getsize(path) for path in resize_param_dict.keys())\<close>\<close>

fun sum_sizes :: "file_system \<Rightarrow> path list \<Rightarrow> int option" where
  "sum_sizes fs [] = Some 0"
| "sum_sizes fs (p # ps) =
     (case getsize fs p of
        None \<Rightarrow> None
      | Some sz \<Rightarrow> (case sum_sizes fs ps of None \<Rightarrow> None | Some n \<Rightarrow> Some (int sz + n)))"

definition resize ::
  "encoder \<Rightarrow> (path \<Rightarrow> path) \<Rightarrow> bool \<Rightarrow> (path \<times> resize_param) list \<Rightarrow> file_system \<Rightarrow> py_error + run_state" where
  "resize enc outp nochange_copy resize_param_dict fs =
     (case sum_sizes fs (map fst resize_param_dict) of
        None \<Rightarrow> Inl OSError
      | Some tb \<Rightarrow>
          resize_loop enc outp nochange_copy 0 resize_param_dict
            \<lparr>files = fs, total_bytes = tb, processed_bytes = 0,
             num_deletedVideos = 0, events = []\<rparr>)"

text \<open>
  Conditions on an encoder and on a file system that the theorems about whole runs use.
  \<open>always_larger\<close>: every invocation exits with return code 0 and leaves an output
  larger than its input. \<open>always_succeeds\<close>: every invocation exits with return code 0
  and leaves an output. \<open>outputs_present\<close>: every asset that a run would write an
  output for (it requires a change, or unchanged files are copied) has its output.
  \<open>eta_count idx\<close> counts the estimates logged for video \<open>idx + 1\<close>.
\<close>

definition always_larger :: "encoder \<Rightarrow> bool" where
  "always_larger enc =
     (\<forall>fs p params output_path src. fs p = Some src \<longrightarrow>
        (\<exists>c. enc fs p params output_path = EncExited 0 (Some c) \<and> length src < length c))"

definition always_succeeds :: "encoder \<Rightarrow> bool" where
  "always_succeeds enc =
     (\<forall>fs p params output_path. \<exists>c. enc fs p params output_path = EncExited 0 (Some c))"

definition outputs_present :: "(path \<Rightarrow> path) \<Rightarrow> bool \<Rightarrow> (path \<times> resize_param) list \<Rightarrow> file_system \<Rightarrow> bool" where
  "outputs_present outp nochange_copy batch fs =
     (\<forall>a \<in> set batch. change_required (snd a) \<or> nochange_copy \<longrightarrow> fs (outp (fst a)) \<noteq> None)"

fun is_eta_for :: "nat \<Rightarrow> event \<Rightarrow> bool" where
  "is_eta_for i (Eta j pb tb) = (i = j)"
| "is_eta_for i e = False"

definition eta_count :: "nat \<Rightarrow> event list \<Rightarrow> nat" where
  "eta_count idx evs = length (filter (is_eta_for idx) evs)"

section \<open>Example inputs\<close>

text \<open>
  A configuration with the target 1920 x 1080, an fps cap of 60 and a coefficient of
  \<open>1 / 32\<close> bits per pixel; a 1280 x 720 video within all its limits; the same video
  one pixel narrower and lower; and the plans that \<open>set_parameters\<close> computes for them.
\<close>

definition cfg_fullhd :: config where
  "cfg_fullhd = \<lparr>c_mode = ToTarget Fullhd, c_limit_direction = DirXY, c_min_size = (1, 1),
     c_fps = PInt 60, c_bpp = 1 / 32, c_nochange_copy = True\<rparr>"

definition info_720p :: video_info where
  "info_720p = \<lparr>v_size = (1280, 720), v_bit_rate = 500000, v_avg_frame_rate = PFloat 30\<rparr>"


definition plan_720p :: resize_param where
  "plan_720p = \<lparr>p_size = (1280, 720), p_bit_rate = PInt 500000, p_fps = PFloat 30,
     change_required = False, orig_size = (1280, 720), orig_bit_rate = 500000,
     orig_fps = PFloat 30\<rparr>"

definition plan_odd :: resize_param where
  "plan_odd = \<lparr>p_size = (1280, 720), p_bit_rate = PInt 500000, p_fps = PFloat 30,
     change_required = True, orig_size = (1279, 719), orig_bit_rate = 500000,
     orig_fps = PFloat 30\<rparr>"

text \<open>
  A file system with one source file, and the same after a conversion; the output path
  under a directory \<^verbatim>\<open>out\<close>; a batch of the one odd-sized video; an encoder that always
  fails, one whose output is one byte longer than its input, and one whose output is
  one byte long.
\<close>

definition out_dir :: "path \<Rightarrow> path" where
  "out_dir p = ''out/'' @ p"

definition failing_encoder :: encoder where
  "failing_encoder fs p params output_path = EncExited 1 None"

definition bloating_encoder :: encoder where
  "bloating_encoder fs p params output_path =
     (case fs p of None \<Rightarrow> EncRaised None | Some c \<Rightarrow> EncExited 0 (Some (0 # c)))"

definition shrinking_encoder :: encoder where
  "shrinking_encoder fs p params output_path = EncExited 0 (Some [7])"

definition fs_one :: file_system where
  "fs_one = (\<lambda>p. None)(''a.mp4'' \<mapsto> [1, 2, 3])"

definition start_state :: "file_system \<Rightarrow> int \<Rightarrow> run_state" where
  "start_state fs tb =
     \<lparr>files = fs, total_bytes = tb, processed_bytes = 0, num_deletedVideos = 0, events = []\<rparr>"

definition batch_odd :: "(path \<times> resize_param) list" where
  "batch_odd = [(''a.mp4'', plan_odd)]"

definition fs_done :: file_system where
  "fs_done = fs_one(''out/a.mp4'' \<mapsto> [7])"

section \<open>Rounding to a double\<close>

lemma two_powi_mono: "m \<le> n \<Longrightarrow> (2::rat) powi m \<le> 2 powi n"
  by (rule power_int_increasing) simp_all

lemma two_powi_strict: "m < n \<Longrightarrow> (2::rat) powi m < 2 powi n"
  by (rule power_int_strict_increasing) simp_all

lemma two_powi_add: "(2::rat) powi (m + n) = 2 powi m * 2 powi n"
  by (simp add: power_int_add)

lemma two_powi_diff: "(2::rat) powi (m - n) = 2 powi m / 2 powi n"
  by (simp add: power_int_diff)

lemma two_powi_less_cancel: "(2::rat) powi m < 2 powi n \<Longrightarrow> m < n"
  using two_powi_mono [of n m] by (cases "m < n") auto

lemma bitlen_powi:
  assumes "0 < a"
  shows "(2::rat) powi (bitlen a - 1) \<le> of_int a \<and> of_int a < (2::rat) powi bitlen a"
proof -
  from bitlen_bounds [OF assms]
  have b1: "2 ^ nat (bitlen a - 1) \<le> a" and b2: "a < 2 ^ nat (bitlen a)" by auto
  have ge1: "1 \<le> bitlen a"
    using assms bitlen_eq_zero_iff [of a] bitlen_nonneg [of a] by linarith
  have "(2::rat) powi (bitlen a - 1) = of_int (2 ^ nat (bitlen a - 1))"
    using ge1 by (simp add: power_int_def)
  also have "\<dots> \<le> of_int a" using b1 by (simp only: of_int_le_iff)
  finally have l: "(2::rat) powi (bitlen a - 1) \<le> of_int a" .
  have "(of_int a :: rat) < of_int (2 ^ nat (bitlen a))" using b2 by (simp only: of_int_less_iff)
  also have "\<dots> = 2 powi bitlen a" using ge1 by (simp add: power_int_def)
  finally show ?thesis using l by simp
qed

lemma expo_bounds:
  assumes "x \<noteq> 0"
  shows "2 powi expo x \<le> \<bar>x\<bar> \<and> \<bar>x\<bar> < 2 powi (expo x + 1)"
proof -
  obtain a b where q: "quotient_of \<bar>x\<bar> = (a, b)" by (cases "quotient_of \<bar>x\<bar>")
  have b: "0 < b" using q by (rule quotient_of_denom_pos)
  have x: "\<bar>x\<bar> = of_int a / of_int b" using q by (rule quotient_of_div)
  have "0 < \<bar>x\<bar>" using assms by simp
  then have a: "0 < a" using x b by (simp add: zero_less_divide_iff)
  define k where "k = bitlen a - bitlen b"
  have e: "expo x = (if 2 powi k \<le> \<bar>x\<bar> then k else k - 1)"
    by (simp add: expo_def q k_def Let_def)
  from bitlen_powi [OF a] bitlen_powi [OF b]
  have a1: "(2::rat) powi (bitlen a - 1) \<le> of_int a" and a2: "of_int a < (2::rat) powi bitlen a"
    and b1: "(2::rat) powi (bitlen b - 1) \<le> of_int b" and b2: "of_int b < (2::rat) powi bitlen b"
    by auto
  have bpos: "(0::rat) < of_int b" using b by simp
  have up: "\<bar>x\<bar> < 2 powi (k + 1)"
  proof -
    have "of_int a * (2::rat) powi (bitlen b - 1) < 2 powi bitlen a * of_int b"
      using a2 b1 a by (intro mult_less_le_imp_less) simp_all
    then have "of_int a / of_int b < (2::rat) powi bitlen a / 2 powi (bitlen b - 1)"
      using bpos by (simp add: divide_simps mult.commute)
    also have "\<dots> = 2 powi (k + 1)"
      by (simp add: k_def flip: two_powi_diff) (simp add: algebra_simps)
    finally show ?thesis using x by simp
  qed
  have lo: "2 powi (k - 1) \<le> \<bar>x\<bar>"
  proof -
    have "(2::rat) powi (bitlen a - 1) * of_int b \<le> of_int a * 2 powi bitlen b"
      using a1 b2 bpos a by (intro mult_mono) (auto intro: less_imp_le)
    then have "(2::rat) powi (bitlen a - 1) / 2 powi bitlen b \<le> of_int a / of_int b"
      using bpos by (simp add: divide_simps mult.commute)
    moreover have "(2::rat) powi (bitlen a - 1) / 2 powi bitlen b = 2 powi (k - 1)"
      by (simp add: k_def flip: two_powi_diff) (simp add: algebra_simps)
    ultimately show ?thesis using x by simp
  qed
  show ?thesis
  proof (cases "2 powi k \<le> \<bar>x\<bar>")
    case True
    then show ?thesis using e up by simp
  next
    case False
    then show ?thesis using e lo by simp
  qed
qed

lemma expo_unique:
  assumes "2 powi e \<le> \<bar>x\<bar>" and "\<bar>x\<bar> < 2 powi (e + 1)"
  shows "expo x = e"
proof -
  have "0 < \<bar>x\<bar>" using assms(1) by (rule less_le_trans [rotated]) simp
  then have "x \<noteq> 0" by simp
  from expo_bounds [OF this]
  have l: "2 powi expo x \<le> \<bar>x\<bar>" and u: "\<bar>x\<bar> < 2 powi (expo x + 1)" by auto
  have "(2::rat) powi e < 2 powi (expo x + 1)" using assms(1) u by simp
  then have 1: "e < expo x + 1" by (rule two_powi_less_cancel)
  have "(2::rat) powi expo x < 2 powi (e + 1)" using l assms(2) by simp
  then have 2: "expo x < e + 1" by (rule two_powi_less_cancel)
  from 1 2 show ?thesis by simp
qed

lemma expo_minus: "expo (- x) = expo x"
  by (simp add: expo_def)

lemma round_even_cases:
  "round_even q = \<lfloor>q\<rfloor> \<or> round_even q = \<lfloor>q\<rfloor> + 1"
  by (simp add: round_even_def Let_def)

lemma round_even_close: "\<bar>of_int (round_even q) - q\<bar> \<le> 1 / 2"
proof -
  define d where "d = q - of_int \<lfloor>q\<rfloor>"
  have d0: "0 \<le> d" and d1: "d < 1" unfolding d_def by linarith+
  have q: "q = of_int \<lfloor>q\<rfloor> + d" by (simp add: d_def)
  have r: "round_even q = (if d < 1 / 2 then \<lfloor>q\<rfloor> else if 1 / 2 < d then \<lfloor>q\<rfloor> + 1
       else if even \<lfloor>q\<rfloor> then \<lfloor>q\<rfloor> else \<lfloor>q\<rfloor> + 1)"
    by (simp add: round_even_def Let_def d_def)
  consider "d < 1 / 2" | "1 / 2 < d" | "d = 1 / 2" by linarith
  then show ?thesis
  proof cases
    case 1
    then have "of_int (round_even q) - q = - d" using r q by simp
    then show ?thesis using 1 d0 by simp
  next
    case 2
    then have "of_int (round_even q) - q = 1 - d" using r q by simp
    then show ?thesis using 2 d1 by simp
  next
    case 3
    then have "of_int (round_even q) - q = - d \<or> of_int (round_even q) - q = 1 - d"
      using r q by simp
    then show ?thesis using 3 by auto
  qed
qed

lemma round_even_eqI:
  assumes "\<bar>q - of_int m\<bar> < 1 / 2"
  shows "round_even q = m"
proof -
  have "\<bar>of_int (round_even q) - of_int m :: rat\<bar> < 1"
    using round_even_close [of q] assms by linarith
  then have "\<bar>of_int (round_even q - m) :: rat\<bar> < of_int 1" by simp
  then have "\<bar>round_even q - m\<bar> < 1"
    by (simp only: of_int_abs [symmetric] of_int_less_iff)
  then show ?thesis by simp
qed

lemma round_even_of_int [simp]: "round_even (of_int n) = n"
  by (rule round_even_eqI) simp

lemma round_even_frac:
  "round_even q = (let d = q - of_int \<lfloor>q\<rfloor> in if d < 1 / 2 then \<lfloor>q\<rfloor> else if 1 / 2 < d then \<lfloor>q\<rfloor> + 1
       else if even \<lfloor>q\<rfloor> then \<lfloor>q\<rfloor> else \<lfloor>q\<rfloor> + 1)"
  by (simp add: round_even_def Let_def)

lemma round_even_mono:
  assumes "q \<le> r"
  shows "round_even q \<le> round_even r"
proof -
  have f: "\<lfloor>q\<rfloor> \<le> \<lfloor>r\<rfloor>" using assms by (rule floor_mono)
  show ?thesis
  proof (cases "\<lfloor>q\<rfloor> = \<lfloor>r\<rfloor>")
    case True
    have "q - of_int \<lfloor>q\<rfloor> \<le> r - of_int \<lfloor>q\<rfloor>" using assms by simp
    then show ?thesis unfolding round_even_frac [of q] round_even_frac [of r] Let_def True [symmetric]
      by (simp split: if_splits)
  next
    case False
    then have "\<lfloor>q\<rfloor> + 1 \<le> \<lfloor>r\<rfloor>" using f by simp
    then show ?thesis
      using round_even_cases [of q] round_even_cases [of r] by linarith
  qed
qed

lemma floor_minus_nonint:
  assumes "q \<noteq> of_int \<lfloor>q\<rfloor>"
  shows "\<lfloor>- q :: rat\<rfloor> = - \<lfloor>q\<rfloor> - 1"
proof (rule floor_unique)
  have "of_int \<lfloor>q\<rfloor> < q"
    by (rule order.not_eq_order_implies_strict [OF assms [symmetric] of_int_floor_le])
  moreover have "q < of_int \<lfloor>q\<rfloor> + 1" by linarith
  ultimately show "of_int (- \<lfloor>q\<rfloor> - 1) \<le> - q" "- q < of_int (- \<lfloor>q\<rfloor> - 1) + 1"
    by simp_all
qed

lemma round_even_minus: "round_even (- q) = - round_even q"
proof (cases "q = of_int \<lfloor>q\<rfloor>")
  case True
  then have "- q = of_int (- \<lfloor>q\<rfloor>)" by simp
  then have "round_even (- q) = - \<lfloor>q\<rfloor>" by (simp only: round_even_of_int)
  moreover have "round_even q = \<lfloor>q\<rfloor>" using True round_even_of_int [of "\<lfloor>q\<rfloor>"] by simp
  ultimately show ?thesis by simp
next
  case False
  define d where "d = q - of_int \<lfloor>q\<rfloor>"
  have "of_int \<lfloor>q\<rfloor> < q"
    by (rule order.not_eq_order_implies_strict [OF False [symmetric] of_int_floor_le])
  then have d0: "0 < d" by (simp add: d_def)
  have fm: "\<lfloor>- q\<rfloor> = - \<lfloor>q\<rfloor> - 1" using False by (rule floor_minus_nonint)
  have dm: "- q - of_int \<lfloor>- q\<rfloor> = 1 - d" by (simp add: fm d_def)
  have r: "round_even q = (if d < 1 / 2 then \<lfloor>q\<rfloor> else if 1 / 2 < d then \<lfloor>q\<rfloor> + 1
       else if even \<lfloor>q\<rfloor> then \<lfloor>q\<rfloor> else \<lfloor>q\<rfloor> + 1)"
    by (simp add: round_even_def Let_def d_def)
  have rm: "round_even (- q) = (if 1 - d < 1 / 2 then - \<lfloor>q\<rfloor> - 1 else if 1 / 2 < 1 - d then - \<lfloor>q\<rfloor>
       else if even (- \<lfloor>q\<rfloor> - 1) then - \<lfloor>q\<rfloor> - 1 else - \<lfloor>q\<rfloor>)"
    unfolding round_even_frac [of "- q"] Let_def dm by (simp add: fm)
  consider "d < 1 / 2" | "1 / 2 < d" | "d = 1 / 2" by linarith
  then show ?thesis
  proof cases
    case 1
    then show ?thesis using r rm by simp
  next
    case 2
    then show ?thesis using r rm by simp
  next
    case 3
    then show ?thesis using r rm by simp
  qed
qed

lemma fl_ulp: "fl x = (if x = 0 then 0 else of_int (round_even (x / ulp x)) * ulp x)"
  by (rule fl_def)

lemma ulp_pos [simp]: "0 < ulp x"
  by (simp add: ulp_def)

lemma ulp_neq0 [simp]: "ulp x \<noteq> 0"
  by (simp add: ulp_def)

lemma ulp_nonneg [simp]: "0 \<le> ulp x"
  by (rule less_imp_le [OF ulp_pos])

lemma powi_div_eq: "a - b = c \<Longrightarrow> (2::rat) powi a / 2 powi b = 2 powi c"
  using two_powi_diff [of a b] by simp

lemma powi_mul_eq: "a + b = c \<Longrightarrow> (2::rat) powi a * 2 powi b = 2 powi c"
  using two_powi_add [of a b] by simp

lemma ulp_minus [simp]: "ulp (- x) = ulp x"
  by (simp add: ulp_def expo_minus)

lemma fl_0 [simp]: "fl 0 = 0"
  by (simp add: fl_def)

lemma fl_minus: "fl (- x) = - fl x"
  by (simp add: fl_ulp round_even_minus)

lemma round_even_nonneg: "0 \<le> q \<Longrightarrow> 0 \<le> round_even q"
  using round_even_mono [of 0 q] round_even_of_int [of 0] by simp

lemma fl_nonneg:
  assumes "0 \<le> x"
  shows "0 \<le> fl x"
proof (cases "x = 0")
  case True
  then show ?thesis by simp
next
  case False
  have "0 \<le> x / ulp x" by (rule divide_nonneg_pos [OF assms ulp_pos])
  then have "0 \<le> round_even (x / ulp x)" by (rule round_even_nonneg)
  then have "(0::rat) \<le> of_int (round_even (x / ulp x)) * ulp x" by simp
  then show ?thesis using False by (simp add: fl_ulp)
qed

lemma fl_eqI:
  assumes "2 powi e \<le> \<bar>x\<bar>" and "\<bar>x\<bar> < 2 powi (e + 1)" and "- 1022 \<le> e"
    and "\<bar>x / 2 powi (e - 52) - of_int m\<bar> < 1 / 2"
  shows "fl x = of_int m * 2 powi (e - 52)"
proof -
  have e: "expo x = e" using assms(1,2) by (rule expo_unique)
  have "0 < \<bar>x\<bar>" using assms(1) by (rule less_le_trans [rotated]) simp
  then have x: "x \<noteq> 0" by simp
  have u: "ulp x = 2 powi (e - 52)" using assms(3) by (simp add: ulp_def e max_def)
  have "round_even (x / 2 powi (e - 52)) = m" using assms(4) by (rule round_even_eqI)
  then show ?thesis using x u by (simp add: fl_ulp)
qed

lemma fl_fix:
  assumes m: "\<bar>m\<bar> < 2 ^ 53" and j: "- 1074 \<le> j"
  shows "fl (of_int m * 2 powi j) = of_int m * 2 powi j"
proof (cases "m = 0")
  case True
  then show ?thesis by simp
next
  case False
  define x :: rat where "x = of_int m * 2 powi j"
  have x0: "x \<noteq> 0" using False by (simp add: x_def)
  have ax: "\<bar>x\<bar> = of_int \<bar>m\<bar> * 2 powi j" by (simp add: x_def abs_mult)
  have "(of_int \<bar>m\<bar> :: rat) < of_int (2 ^ 53)" using m by (simp only: of_int_less_iff)
  then have "of_int \<bar>m\<bar> < (2::rat) ^ 53" by simp
  then have "\<bar>x\<bar> < 2 ^ 53 * 2 powi j" unfolding ax by (simp add: mult_strict_right_mono)
  also have "\<dots> = 2 powi 53 * 2 powi j" by simp
  also have "\<dots> = 2 powi (53 + j)" by (rule powi_mul_eq) simp
  finally have "\<bar>x\<bar> < 2 powi (53 + j)" .
  moreover have "2 powi expo x \<le> \<bar>x\<bar>" using expo_bounds [OF x0] by simp
  ultimately have "(2::rat) powi expo x < 2 powi (53 + j)" by simp
  then have "expo x < 53 + j" by (rule two_powi_less_cancel)
  then have le: "max (expo x) (- 1022) - 52 \<le> j" using j by simp
  define t where "t = j - (max (expo x) (- 1022) - 52)"
  have t0: "0 \<le> t" using le by (simp add: t_def)
  have pj: "(2::rat) powi j = 2 powi t * ulp x"
    unfolding ulp_def by (rule powi_mul_eq [symmetric]) (simp add: t_def)
  have "x = of_int m * 2 powi j" by (rule x_def)
  also have "\<dots> = of_int m * (2 powi t * ulp x)" by (simp only: pj)
  finally have xeq: "x = of_int m * 2 powi t * ulp x" by (simp only: mult.assoc)
  have pt: "(2::rat) powi t = of_int (2 ^ nat t)" using t0 by (simp add: power_int_def)
  have "x / ulp x = (of_int m * 2 powi t * ulp x) / ulp x"
    by (rule arg_cong [where f = "\<lambda>y. y / ulp x", OF xeq])
  also have "\<dots> = of_int m * 2 powi t" by simp
  also have "\<dots> = of_int (m * 2 ^ nat t)" by (simp only: pt of_int_mult)
  finally have "round_even (x / ulp x) = m * 2 ^ nat t" by (simp only: round_even_of_int)
  then have "fl x = of_int (m * 2 ^ nat t) * ulp x" using x0 by (simp add: fl_ulp)
  also have "\<dots> = of_int m * 2 powi t * ulp x" by (simp only: pt of_int_mult)
  also have "\<dots> = x" by (rule xeq [symmetric])
  finally show ?thesis by (simp only: x_def)
qed

lemma fl_of_int:
  assumes "\<bar>n\<bar> < 2 ^ 53"
  shows "fl (of_int n) = of_int n"
  using fl_fix [OF assms, of 0] by simp

lemma fl_pos_upper:
  assumes "0 < x"
  shows "fl x \<le> 2 powi (max (expo x) (- 1022) + 1)"
proof -
  have x0: "x \<noteq> 0" using assms by simp
  define ee where "ee = max (expo x) (- 1022)"
  have u: "ulp x = 2 powi (ee - 52)" by (simp add: ulp_def ee_def)
  have "x < 2 powi (expo x + 1)" using expo_bounds [OF x0] assms by simp
  also have "\<dots> \<le> 2 powi (ee + 1)" by (rule two_powi_mono) (simp add: ee_def)
  finally have "x < 2 powi (ee + 1)" .
  then have "x / ulp x < 2 powi (ee + 1) / ulp x" by (rule divide_strict_right_mono) simp
  also have "\<dots> = 2 powi 53" unfolding u by (rule powi_div_eq) simp
  finally have "x / ulp x \<le> of_int (2 ^ 53)" by simp
  then have "round_even (x / ulp x) \<le> round_even (of_int (2 ^ 53))" by (rule round_even_mono)
  then have "round_even (x / ulp x) \<le> 2 ^ 53" by (simp only: round_even_of_int)
  then have "(of_int (round_even (x / ulp x)) :: rat) \<le> of_int (2 ^ 53)" by (simp only: of_int_le_iff)
  then have "fl x \<le> 2 ^ 53 * ulp x" using x0 by (simp add: fl_ulp)
  also have "\<dots> = 2 powi 53 * 2 powi (ee - 52)" unfolding u by simp
  also have "\<dots> = 2 powi (ee + 1)" by (rule powi_mul_eq) simp
  finally show ?thesis by (simp add: ee_def)
qed

lemma fl_pos_lower:
  assumes "0 < x" and "- 1022 \<le> expo x"
  shows "2 powi expo x \<le> fl x"
proof -
  have x0: "x \<noteq> 0" using assms by simp
  have u: "ulp x = 2 powi (expo x - 52)" using assms(2) by (simp add: ulp_def max_def)
  have "2 powi expo x \<le> x" using expo_bounds [OF x0] assms by simp
  then have "2 powi expo x / ulp x \<le> x / ulp x" by (rule divide_right_mono) simp
  moreover have "2 powi expo x / ulp x = 2 powi 52"
    unfolding u by (rule powi_div_eq) simp
  then have "2 powi expo x / ulp x = of_int (2 ^ 52)" by simp
  ultimately have "of_int (2 ^ 52) \<le> x / ulp x" by simp
  then have "round_even (of_int (2 ^ 52)) \<le> round_even (x / ulp x)" by (rule round_even_mono)
  then have "2 ^ 52 \<le> round_even (x / ulp x)" by (simp only: round_even_of_int)
  then have "(of_int (2 ^ 52) :: rat) \<le> of_int (round_even (x / ulp x))" by (simp only: of_int_le_iff)
  then have "2 ^ 52 * ulp x \<le> fl x" using x0 by (simp add: fl_ulp)
  moreover have "2 powi 52 * ulp x = 2 powi expo x"
    unfolding u by (rule powi_mul_eq) simp
  then have "2 ^ 52 * ulp x = 2 powi expo x" by simp
  ultimately show ?thesis by simp
qed

lemma expo_mono_pos:
  assumes "0 < x" and "x \<le> y"
  shows "expo x \<le> expo y"
proof -
  have x0: "x \<noteq> 0" and y0: "y \<noteq> 0" using assms by auto
  have "2 powi expo x \<le> x" using expo_bounds [OF x0] assms by simp
  moreover have "y < 2 powi (expo y + 1)" using expo_bounds [OF y0] assms by simp
  ultimately have "(2::rat) powi expo x < 2 powi (expo y + 1)" using assms(2) by simp
  then have "expo x < expo y + 1" by (rule two_powi_less_cancel)
  then show ?thesis by simp
qed

lemma fl_mono_pos:
  assumes "0 < x" and "x \<le> y"
  shows "fl x \<le> fl y"
proof -
  have x0: "x \<noteq> 0" and y0: "y \<noteq> 0" and ypos: "0 < y" using assms by auto
  have e: "expo x \<le> expo y" using assms by (rule expo_mono_pos)
  show ?thesis
  proof (cases "max (expo x) (- 1022) = max (expo y) (- 1022)")
    case True
    then have u: "ulp x = ulp y" by (simp add: ulp_def)
    have "x / ulp y \<le> y / ulp y" using assms(2) by (rule divide_right_mono) simp
    then have "round_even (x / ulp y) \<le> round_even (y / ulp y)" by (rule round_even_mono)
    then have "(of_int (round_even (x / ulp y)) :: rat) \<le> of_int (round_even (y / ulp y))"
      by (simp only: of_int_le_iff)
    then have "of_int (round_even (x / ulp y)) * ulp y \<le> of_int (round_even (y / ulp y)) * ulp y"
      by (rule mult_right_mono) simp
    then show ?thesis using x0 y0 u by (simp add: fl_ulp)
  next
    case False
    then have lt: "max (expo x) (- 1022) < expo y" and y: "- 1022 \<le> expo y"
      using e by (auto simp: max_def split: if_splits)
    have "fl x \<le> 2 powi (max (expo x) (- 1022) + 1)" using assms(1) by (rule fl_pos_upper)
    also have "\<dots> \<le> 2 powi expo y" by (rule two_powi_mono) (use lt in linarith)
    also have "\<dots> \<le> fl y" using ypos y by (rule fl_pos_lower)
    finally show ?thesis .
  qed
qed

lemma fl_mono:
  assumes "x \<le> y"
  shows "fl x \<le> fl y"
proof -
  consider "0 < x" | "x \<le> 0" "0 \<le> y" | "y < 0" using assms by linarith
  then show ?thesis
  proof cases
    case 1
    then show ?thesis using assms by (rule fl_mono_pos)
  next
    case 2
    have "0 \<le> fl (- x)" using 2(1) by (intro fl_nonneg) simp
    then have "fl x \<le> 0" by (simp add: fl_minus)
    also have "0 \<le> fl y" using 2(2) by (rule fl_nonneg)
    finally show ?thesis .
  next
    case 3
    have "fl (- y) \<le> fl (- x)" using 3 assms by (intro fl_mono_pos) simp_all
    then show ?thesis by (simp add: fl_minus)
  qed
qed


lemma fl_1 [simp]: "fl 1 = 1"
  using fl_of_int [of 1] by simp

lemma fl_idem_int_bound:
  assumes "x \<le> of_int n" and "\<bar>n\<bar> < 2 ^ 53"
  shows "fl x \<le> of_int n"
  using fl_mono [OF assms(1)] fl_of_int [OF assms(2)] by simp

section \<open>Evaluating the model on concrete inputs\<close>

lemma finite_double_le: "\<bar>x\<bar> \<le> 2 ^ 53 \<Longrightarrow> finite_double x"
proof -
  assume "\<bar>x\<bar> \<le> 2 ^ 53"
  also have "(2::rat) ^ 53 < 2 ^ 1024" by (rule power_strict_increasing) simp_all
  finally show ?thesis by (simp add: finite_double_def)
qed

lemma fl_numeral: "(numeral k :: int) < 2 ^ 53 \<Longrightarrow> fl (numeral k) = numeral k"
  using fl_of_int [of "numeral k"] by simp

lemma fl_half: "fl (1 / 2) = 1 / 2"
  using fl_fix [of 1 "- 1"] by simp

lemma to_float_int: "\<bar>n\<bar> < 2 ^ 53 \<Longrightarrow> to_float (PInt n) = Inr (of_int n)"
  by (simp add: fl_of_int finite_double_le)







section \<open>Properties of the resolver\<close>

lemma even_up_even: "even (even_up n)"
  unfolding even_up_def by presburger

lemma even_up_cases: "even_up n = (if odd n then n + 1 else n)"
  unfolding even_up_def by presburger

lemma set_size_resized:
  "set_size origin_size mode min_size limit_direction = Inr s \<Longrightarrow>
   \<exists>w0 h0. resized origin_size mode min_size limit_direction = Inr (w0, h0)
     \<and> s = (even_up w0, even_up h0)"
  unfolding set_size_def by (auto split: sum.splits)


lemma set_parameters_Inr:
  assumes "set_parameters cfg info = Inr prm"
  shows "set_size (v_size info) (c_mode cfg) (c_min_size cfg) (c_limit_direction cfg) = Inr (p_size prm)
    \<and> p_fps prm = set_fps (v_avg_frame_rate info) (c_fps cfg)
    \<and> set_bit_rate (v_bit_rate info) (c_bpp cfg) (fst (p_size prm)) (snd (p_size prm)) (p_fps prm)
        = Inr (p_bit_rate prm)
    \<and> change_required prm =
        (p_size prm \<noteq> v_size info \<or> py_ne (p_bit_rate prm) (PInt (v_bit_rate info))
         \<or> py_ne (p_fps prm) (v_avg_frame_rate info))
    \<and> orig_size prm = v_size info \<and> orig_bit_rate prm = v_bit_rate info
    \<and> orig_fps prm = v_avg_frame_rate info"
  using assms unfolding set_parameters_def Let_def
  by (auto split: sum.splits)

lemma bitrate_720p: "bitrateFromBPP (1 / 32) 1280 720 (PFloat 30) = Inr (PFloat 864000)"
  by (simp add: bitrateFromBPP_def to_float_int fl_numeral finite_double_le)

lemma set_bit_rate_720p: "set_bit_rate 500000 (1 / 32) 1280 720 (PFloat 30) = Inr (PInt 500000)"
  by (simp add: set_bit_rate_def bitrate_720p py_gt_def)

lemma resized_720p: "resized (1280, 720) (ToTarget Fullhd) (1, 1) DirXY = Inr (1280, 720)"
  by (simp add: resized_def target_ratio_def axis_ratio_def py_min_def scale_size_def scale_def
      below_min_def)

lemma set_size_720p: "set_size (1280, 720) (ToTarget Fullhd) (1, 1) DirXY = Inr (1280, 720)"
  by (simp add: set_size_def resized_720p even_up_def)

lemma resized_odd: "resized (1279, 719) (ToTarget Fullhd) (1, 1) DirXY = Inr (1279, 719)"
  by (simp add: resized_def target_ratio_def axis_ratio_def py_min_def scale_size_def scale_def
      below_min_def)

lemma set_size_odd: "set_size (1279, 719) (ToTarget Fullhd) (1, 1) DirXY = Inr (1280, 720)"
  by (simp add: set_size_def resized_odd even_up_def)

lemma set_parameters_720p: "set_parameters cfg_fullhd info_720p = Inr plan_720p"
  by (simp add: set_parameters_def Let_def cfg_fullhd_def info_720p_def plan_720p_def set_size_720p
      set_fps_def py_gt_def set_bit_rate_720p py_ne_def)


text \<open>
  Claim C8. For every native size and every mode, divide included, both dimensions that
  \<open>set_size\<close> returns are even: each is the computed dimension \<open>w0\<close> (\<open>h0\<close>) itself
  when that is even and the computed dimension plus one when it is odd, so it is never
  smaller than the computed dimension.
\<close>

theorem set_size_even:
  "set_size origin_size mode min_size limit_direction = Inr (w, h) \<Longrightarrow>
   even w \<and> even h \<and>
   (\<exists>w0 h0. resized origin_size mode min_size limit_direction = Inr (w0, h0)
      \<and> w = (if odd w0 then w0 + 1 else w0) \<and> h = (if odd h0 then h0 + 1 else h0)
      \<and> w0 \<le> w \<and> h0 \<le> h)"
proof -
  assume r: "set_size origin_size mode min_size limit_direction = Inr (w, h)"
  from set_size_resized [OF r] obtain w0 h0 where
    r0: "resized origin_size mode min_size limit_direction = Inr (w0, h0)"
    and w: "w = even_up w0" and h: "h = even_up h0"
    by blast
  have "even w" "even h" using w h by (simp_all add: even_up_even)
  moreover have "w = (if odd w0 then w0 + 1 else w0)" "h = (if odd h0 then h0 + 1 else h0)"
    using w h by (simp_all add: even_up_cases)
  moreover have "w0 \<le> w" "h0 \<le> h" using w h by (simp_all add: even_up_cases)
  ultimately show ?thesis using r0 by blast
qed

theorem set_size_even_witness:
  "set_size (1279, 719) (ToTarget Fullhd) (1, 1) DirXY = Inr (1280, 720)
   \<and> even (1280 :: int) \<and> even (720 :: int)
   \<and> resized (1279, 719) (ToTarget Fullhd) (1, 1) DirXY = Inr (1279, 719)"
  using set_size_even [OF set_size_odd] set_size_odd resized_odd by simp

text \<open>
  Claim C4. In every plan the resolver returns, the target size, fps and bit rate are the
  results of \<open>set_size\<close>, \<open>set_fps\<close> and \<open>set_bit_rate\<close>, and \<open>change_required\<close> is true
  if and only if at least one of them differs from the native value, compared exactly;
  it is false if and only if all three are unchanged.
\<close>

theorem change_required_iff:
  assumes "set_parameters cfg info = Inr prm"
  shows "set_size (v_size info) (c_mode cfg) (c_min_size cfg) (c_limit_direction cfg) = Inr (p_size prm)
    \<and> set_fps (v_avg_frame_rate info) (c_fps cfg) = p_fps prm
    \<and> set_bit_rate (v_bit_rate info) (c_bpp cfg) (fst (p_size prm)) (snd (p_size prm)) (p_fps prm)
        = Inr (p_bit_rate prm)
    \<and> (change_required prm \<longleftrightarrow>
          p_size prm \<noteq> v_size info \<or> py_val (p_bit_rate prm) \<noteq> of_int (v_bit_rate info)
          \<or> py_val (p_fps prm) \<noteq> py_val (v_avg_frame_rate info))
    \<and> (\<not> change_required prm \<longleftrightarrow>
          p_size prm = v_size info \<and> py_val (p_bit_rate prm) = of_int (v_bit_rate info)
          \<and> py_val (p_fps prm) = py_val (v_avg_frame_rate info))"
  using set_parameters_Inr [OF assms] by (auto simp: py_ne_def)

theorem change_required_iff_witness:
  "set_parameters cfg_fullhd info_720p = Inr plan_720p \<and> \<not> change_required plan_720p
   \<and> p_size plan_720p = v_size info_720p
   \<and> py_val (p_bit_rate plan_720p) = of_int (v_bit_rate info_720p)
   \<and> py_val (p_fps plan_720p) = py_val (v_avg_frame_rate info_720p)"
  using change_required_iff [OF set_parameters_720p] set_parameters_720p
  by (simp add: plan_720p_def)

section \<open>Properties of the executor\<close>

lemma files_say [simp]: "files (say e st) = files st"
  by (simp add: say_def)

lemma files_eta [simp]: "files (eta idx st) = files st"
  by (simp add: eta_def)

lemma events_say [simp]: "events (say e st) = events st @ [e]"
  by (simp add: say_def)

lemma events_eta [simp]:
  "events (eta idx st) = events st @ [Eta idx (processed_bytes st) (total_bytes st)]"
  by (simp add: eta_def)

lemma discount_Inr:
  "discount p st = Inr st1 \<Longrightarrow> files st1 = files st \<and> events st1 = events st \<and> files st p \<noteq> None"
  by (auto simp: discount_def getsize_def split: option.splits)

lemma skip_existing_Inr:
  assumes "skip_existing idx p output_path st = Inr st'"
  shows "files st' = files st"
    and "\<exists>pb tb. events st' = events st @ [SkipExists output_path, Eta idx pb tb]"
  using assms unfolding skip_existing_def
  by (auto split: sum.splits dest!: discount_Inr)

lemma no_change_Inr:
  assumes "no_change nochange_copy idx p output_path st = Inr st'"
  shows "files st p \<noteq> None"
    and "files st' = (if nochange_copy then (files st)(output_path := files st p) else files st)"
    and "\<exists>e pb tb. events st' = events st @ [NoChange p, e, Eta idx pb tb]
           \<and> e \<in> {Copied output_path, SkipNoCopy p}"
  using assms unfolding no_change_def
  by (auto split: sum.splits option.splits if_splits dest!: discount_Inr simp: copy2_def)

lemma size_check_frame: "o' \<noteq> output_path \<Longrightarrow> files (size_check p output_path st) o' = files st o'"
  by (auto simp: size_check_def copy2_def split: option.splits)

lemma write_output_frame: "o' \<noteq> output_path \<Longrightarrow> write_output fs output_path out o' = fs o'"
  by (simp add: write_output_def split: option.splits)

lemma convert_frame:
  assumes "convert enc idx p params output_path st = Inr st'" and "o' \<noteq> output_path"
  shows "files st' o' = files st o'"
  using assms unfolding convert_def Let_def
  by (auto split: enc_result.splits if_splits option.splits
      simp: size_check_frame write_output_frame)

lemma resize_step_frame:
  assumes "resize_step enc outp nochange_copy idx a st = Inr st'" and "o' \<noteq> outp (fst a)"
  shows "files st' o' = files st o'"
  using assms unfolding resize_step_def Let_def
  by (auto split: if_splits dest: skip_existing_Inr(1) no_change_Inr(2) convert_frame)

lemma resize_step_extends:
  assumes "resize_step enc outp nochange_copy idx a st = Inr st'"
  shows "files st \<subseteq>\<^sub>m files st'"
proof (rule map_le_def [THEN iffD2], rule ballI)
  fix o'
  assume d: "o' \<in> dom (files st)"
  show "files st o' = files st' o'"
  proof (cases "o' = outp (fst a)")
    case True
    then have "files st (outp (fst a)) \<noteq> None" using d by auto
    then have "skip_existing idx (fst a) (outp (fst a)) st = Inr st'"
      using assms by (simp add: resize_step_def Let_def)
    then show ?thesis by (simp add: skip_existing_Inr(1))
  next
    case False
    then show ?thesis using resize_step_frame [OF assms] by simp
  qed
qed

lemma resize_loop_extends:
  "resize_loop enc outp nochange_copy idx as st = Inr st' \<Longrightarrow> files st \<subseteq>\<^sub>m files st'"
proof (induction as arbitrary: idx st)
  case Nil
  then show ?case by simp
next
  case (Cons a as)
  from Cons.prems obtain st1 where
    s: "resize_step enc outp nochange_copy idx a st = Inr st1"
    and l: "resize_loop enc outp nochange_copy (Suc idx) as st1 = Inr st'"
    by (auto split: sum.splits)
  from resize_step_extends [OF s] Cons.IH [OF l] show ?case by (rule map_le_trans)
qed

lemma map_le_Some: "m \<subseteq>\<^sub>m m' \<Longrightarrow> m k = Some v \<Longrightarrow> m' k = Some v"
  by (auto simp: map_le_def dom_def)

lemma convert_oversize:
  assumes src: "files st p = Some src" and out: "files st output_path = None"
    and enc: "enc (files st) p params output_path = EncExited 0 (Some c)"
    and big: "length src < length c"
  shows "convert enc idx p params output_path st =
     Inr (eta idx (say (OversizeCopied output_path) (say (Encode output_path) st)
        \<lparr>files := (files st)(output_path \<mapsto> src),
         processed_bytes := processed_bytes st + int (length src)\<rparr>))"
proof -
  have ne: "p \<noteq> output_path" using src out by auto
  show ?thesis
    using src big ne unfolding convert_def Let_def enc
    by (simp add: write_output_def size_check_def getsize_def copy2_def say_def eta_def)
qed

lemma convert_failed:
  assumes "enc (files st) p params output_path = EncExited rc out" and "rc \<noteq> 0"
  shows "convert enc idx p params output_path st =
     Inr (say (EncodeFailed p) (say (Encode output_path) st
        \<lparr>files := write_output (files st) output_path out\<rparr>))"
  using assms unfolding convert_def Let_def by (simp add: say_def)

lemma sum_sizes_Some: "sum_sizes fs ps = Some n \<Longrightarrow> \<forall>p \<in> set ps. fs p \<noteq> None"
  by (induction ps arbitrary: n) (auto simp: getsize_def split: option.splits)

lemma resize_step_oversize:
  assumes "files st p = Some src" and "files st (outp p) = None" and "change_required params"
    and "enc (files st) p params (outp p) = EncExited 0 (Some c)" and "length src < length c"
  shows "\<exists>st'. resize_step enc outp nochange_copy idx (p, params) st = Inr st'
     \<and> files st' = (files st)(outp p \<mapsto> src)"
  using assms convert_oversize [where enc = enc and st = st and p = p and output_path = "outp p"
      and params = params and src = src and c = c and idx = idx]
  by (simp add: resize_step_def Let_def)

lemma resize_loop_oversize:
  assumes "always_larger enc"
  shows "distinct (map (\<lambda>a. outp (fst a)) as) \<Longrightarrow> \<forall>a \<in> set as. files st (fst a) \<noteq> None \<Longrightarrow>
    resize_loop enc outp nochange_copy idx as st = Inr st' \<Longrightarrow> (q, prm) \<in> set as \<Longrightarrow>
    change_required prm \<Longrightarrow> files st (outp q) = None \<Longrightarrow> files st' (outp q) = files st q"
proof (induction as arbitrary: idx st)
  case Nil
  then show ?case by simp
next
  case (Cons a as)
  from Cons.prems(3) obtain st1 where
    s: "resize_step enc outp nochange_copy idx a st = Inr st1"
    and l: "resize_loop enc outp nochange_copy (Suc idx) as st1 = Inr st'"
    by (auto split: sum.splits)
  have ext: "files st \<subseteq>\<^sub>m files st1" using s by (rule resize_step_extends)
  obtain src where src: "files st q = Some src"
    using Cons.prems(2,4) by force
  show ?case
  proof (cases "a = (q, prm)")
    case True
    from assms src obtain c where
      c: "enc (files st) q prm (outp q) = EncExited 0 (Some c)" and big: "length src < length c"
      unfolding always_larger_def by blast
    from resize_step_oversize [where enc = enc and outp = outp and st = st and p = q
        and params = prm and src = src and c = c and nochange_copy = nochange_copy and idx = idx]
      src Cons.prems(5,6) c big s True
    have "files st1 (outp q) = Some src" by auto
    then have "files st' (outp q) = Some src"
      using resize_loop_extends [OF l] by (rule map_le_Some [rotated])
    then show ?thesis using src by simp
  next
    case False
    then have mem: "(q, prm) \<in> set as" using Cons.prems(4) by simp
    then have "outp q \<in> (\<lambda>a. outp (fst a)) ` set as" by force
    moreover have "outp (fst a) \<notin> (\<lambda>a. outp (fst a)) ` set as" using Cons.prems(1) by simp
    ultimately have ne: "outp q \<noteq> outp (fst a)" by metis
    have none1: "files st1 (outp q) = None"
      using resize_step_frame [OF s ne] Cons.prems(6) by simp
    have srcs: "\<forall>a \<in> set as. files st1 (fst a) \<noteq> None"
    proof
      fix b assume "b \<in> set as"
      then obtain v where "files st (fst b) = Some v" using Cons.prems(2) by auto
      then have "files st1 (fst b) = Some v" using ext by (rule map_le_Some [rotated])
      then show "files st1 (fst b) \<noteq> None" by simp
    qed
    have d: "distinct (map (\<lambda>a. outp (fst a)) as)" using Cons.prems(1) by simp
    have "files st' (outp q) = files st1 q"
      using Cons.IH [OF d srcs l mem Cons.prems(5) none1] .
    moreover have "files st1 q = Some src" using ext src by (rule map_le_Some)
    ultimately show ?thesis using src by simp
  qed
qed

lemma resize_oversize:
  assumes "always_larger enc" and "distinct (map (\<lambda>a. outp (fst a)) batch)"
    and "resize enc outp nochange_copy batch fs = Inr st'"
    and "(q, prm) \<in> set batch" and "change_required prm" and "fs (outp q) = None"
  shows "fs q \<noteq> None \<and> files st' (outp q) = fs q"
proof -
  from assms(3) obtain tb where
    tb: "sum_sizes fs (map fst batch) = Some tb"
    and l: "resize_loop enc outp nochange_copy 0 batch
      \<lparr>files = fs, total_bytes = tb, processed_bytes = 0, num_deletedVideos = 0, events = []\<rparr> = Inr st'"
    by (auto simp: resize_def split: option.splits)
  have srcs: "\<forall>a \<in> set batch. fs (fst a) \<noteq> None" using sum_sizes_Some [OF tb] by simp
  then have "fs q \<noteq> None" using assms(4) by force
  moreover have "files st' (outp q) = fs q"
    using resize_loop_oversize [OF assms(1,2) _ l assms(4,5)] srcs assms(6) by simp
  ultimately show ?thesis by simp
qed

lemma resize_step_present:
  assumes "change_required (snd a) \<or> nochange_copy \<longrightarrow> files st (outp (fst a)) \<noteq> None"
    and "resize_step enc outp nochange_copy idx a st = Inr st'"
  shows "files st' = files st \<and> (\<forall>o'. Encode o' \<in> set (events st') \<longrightarrow> Encode o' \<in> set (events st))"
proof (cases "files st (outp (fst a)) \<noteq> None")
  case True
  then have "skip_existing idx (fst a) (outp (fst a)) st = Inr st'"
    using assms(2) by (simp add: resize_step_def Let_def)
  from skip_existing_Inr [OF this] show ?thesis by auto
next
  case False
  then have nc: "\<not> change_required (snd a)" "\<not> nochange_copy" using assms(1) by auto
  then have "no_change nochange_copy idx (fst a) (outp (fst a)) st = Inr st'"
    using assms(2) False by (simp add: resize_step_def Let_def)
  from no_change_Inr(2,3) [OF this] nc show ?thesis by auto
qed

lemma resize_loop_present:
  "\<forall>a \<in> set as. change_required (snd a) \<or> nochange_copy \<longrightarrow> files st (outp (fst a)) \<noteq> None \<Longrightarrow>
   resize_loop enc outp nochange_copy idx as st = Inr st' \<Longrightarrow>
   files st' = files st \<and> (\<forall>o'. Encode o' \<in> set (events st') \<longrightarrow> Encode o' \<in> set (events st))"
proof (induction as arbitrary: idx st)
  case Nil
  then show ?case by simp
next
  case (Cons a as)
  from Cons.prems(2) obtain st1 where
    s: "resize_step enc outp nochange_copy idx a st = Inr st1"
    and l: "resize_loop enc outp nochange_copy (Suc idx) as st1 = Inr st'"
    by (auto split: sum.splits)
  have a: "change_required (snd a) \<or> nochange_copy \<longrightarrow> files st (outp (fst a)) \<noteq> None"
    using Cons.prems(1) by simp
  from resize_step_present [OF a s]
  have f1: "files st1 = files st"
    and e1: "\<forall>o'. Encode o' \<in> set (events st1) \<longrightarrow> Encode o' \<in> set (events st)" by auto
  have "\<forall>a \<in> set as. change_required (snd a) \<or> nochange_copy \<longrightarrow> files st1 (outp (fst a)) \<noteq> None"
    using Cons.prems(1) f1 by simp
  from Cons.IH [OF this l] f1 e1 show ?case by auto
qed

lemma resize_present:
  assumes "outputs_present outp nochange_copy batch fs"
    and "resize enc outp nochange_copy batch fs = Inr st'"
  shows "files st' = fs \<and> (\<forall>o'. Encode o' \<notin> set (events st'))"
proof -
  from assms(2) obtain tb where
    l: "resize_loop enc outp nochange_copy 0 batch
      \<lparr>files = fs, total_bytes = tb, processed_bytes = 0, num_deletedVideos = 0, events = []\<rparr> = Inr st'"
    by (auto simp: resize_def split: option.splits)
  from resize_loop_present [OF _ l] assms(1) show ?thesis
    by (simp add: outputs_present_def)
qed

lemma convert_succeeds_output:
  assumes "enc (files st) p params output_path = EncExited 0 (Some c)"
    and "convert enc idx p params output_path st = Inr st'"
  shows "files st' output_path \<noteq> None"
  using assms unfolding convert_def Let_def
  by (auto simp: write_output_def size_check_def copy2_def getsize_def split: option.splits if_splits)

lemma resize_step_establishes:
  assumes "always_succeeds enc" and "resize_step enc outp nochange_copy idx a st = Inr st'"
    and "change_required (snd a) \<or> nochange_copy"
  shows "files st' (outp (fst a)) \<noteq> None"
proof (cases "files st (outp (fst a)) \<noteq> None")
  case True
  then obtain v where "files st (outp (fst a)) = Some v" by auto
  then have "files st' (outp (fst a)) = Some v"
    using resize_step_extends [OF assms(2)] by (rule map_le_Some [rotated])
  then show ?thesis by simp
next
  case False
  show ?thesis
  proof (cases "change_required (snd a)")
    case True
    then have c: "convert enc idx (fst a) (snd a) (outp (fst a)) st = Inr st'"
      using assms(2) False by (simp add: resize_step_def Let_def)
    from assms(1) obtain c' where
      "enc (files st) (fst a) (snd a) (outp (fst a)) = EncExited 0 (Some c')"
      unfolding always_succeeds_def by blast
    then show ?thesis using c by (rule convert_succeeds_output)
  next
    case nochange: False
    then have nc: "nochange_copy" using assms(3) by simp
    have "no_change nochange_copy idx (fst a) (outp (fst a)) st = Inr st'"
      using assms(2) False nochange by (simp add: resize_step_def Let_def)
    from no_change_Inr(1,2) [OF this] nc show ?thesis by auto
  qed
qed

lemma resize_loop_establishes:
  assumes "always_succeeds enc"
  shows "resize_loop enc outp nochange_copy idx as st = Inr st' \<Longrightarrow>
   \<forall>a \<in> set as. change_required (snd a) \<or> nochange_copy \<longrightarrow> files st' (outp (fst a)) \<noteq> None"
proof (induction as arbitrary: idx st)
  case Nil
  then show ?case by simp
next
  case (Cons a as)
  from Cons.prems obtain st1 where
    s: "resize_step enc outp nochange_copy idx a st = Inr st1"
    and l: "resize_loop enc outp nochange_copy (Suc idx) as st1 = Inr st'"
    by (auto split: sum.splits)
  have "change_required (snd a) \<or> nochange_copy \<longrightarrow> files st' (outp (fst a)) \<noteq> None"
  proof
    assume "change_required (snd a) \<or> nochange_copy"
    from resize_step_establishes [OF assms s this]
    obtain v where "files st1 (outp (fst a)) = Some v" by auto
    then have "files st' (outp (fst a)) = Some v"
      using resize_loop_extends [OF l] by (rule map_le_Some [rotated])
    then show "files st' (outp (fst a)) \<noteq> None" by simp
  qed
  then show ?case using Cons.IH [OF l] by simp
qed

lemma resize_establishes:
  assumes "always_succeeds enc" and "resize enc outp nochange_copy batch fs = Inr st'"
  shows "outputs_present outp nochange_copy batch (files st')"
proof -
  from assms(2) obtain tb where
    l: "resize_loop enc outp nochange_copy 0 batch
      \<lparr>files = fs, total_bytes = tb, processed_bytes = 0, num_deletedVideos = 0, events = []\<rparr> = Inr st'"
    by (auto simp: resize_def split: option.splits)
  from resize_loop_establishes [OF assms(1) l] show ?thesis
    by (simp add: outputs_present_def)
qed

lemma run_failing:
  "resize failing_encoder out_dir True batch_odd fs_one =
     Inr \<lparr>files = fs_one, total_bytes = 3, processed_bytes = 0, num_deletedVideos = 0,
          events = [Encode ''out/a.mp4'', EncodeFailed ''a.mp4'']\<rparr>"
  by (simp add: resize_def batch_odd_def getsize_def fs_one_def resize_step_def Let_def out_dir_def
      convert_def failing_encoder_def write_output_def say_def plan_odd_def)

lemma run_bloating:
  "resize bloating_encoder out_dir True batch_odd fs_one =
     Inr \<lparr>files = fs_one(''out/a.mp4'' \<mapsto> [1, 2, 3]), total_bytes = 3, processed_bytes = 3,
          num_deletedVideos = 0,
          events = [Encode ''out/a.mp4'', OversizeCopied ''out/a.mp4'', Eta 0 3 3]\<rparr>"
  by (simp add: resize_def batch_odd_def getsize_def fs_one_def resize_step_def Let_def out_dir_def
      convert_def bloating_encoder_def write_output_def say_def eta_def plan_odd_def size_check_def
      copy2_def)

lemma run_shrinking:
  "resize shrinking_encoder out_dir True batch_odd fs_one =
     Inr \<lparr>files = fs_done, total_bytes = 3, processed_bytes = 3,
          num_deletedVideos = 0,
          events = [Encode ''out/a.mp4'', KeptConverted ''out/a.mp4'', Eta 0 3 3]\<rparr>"
  by (simp add: resize_def batch_odd_def getsize_def fs_one_def fs_done_def resize_step_def Let_def
      out_dir_def convert_def shrinking_encoder_def write_output_def say_def eta_def plan_odd_def
      size_check_def copy2_def)

lemma run_again:
  "resize failing_encoder out_dir True batch_odd fs_done =
     Inr \<lparr>files = fs_done, total_bytes = 0, processed_bytes = 0,
          num_deletedVideos = 1,
          events = [SkipExists ''out/a.mp4'', Eta 0 0 0]\<rparr>"
  by (simp add: resize_def batch_odd_def getsize_def fs_one_def fs_done_def resize_step_def Let_def
      out_dir_def skip_existing_def discount_def say_def eta_def)

lemma always_larger_bloating: "always_larger bloating_encoder"
  by (simp add: always_larger_def bloating_encoder_def)

lemma always_succeeds_shrinking: "always_succeeds shrinking_encoder"
  by (simp add: always_succeeds_def shrinking_encoder_def)

lemma outputs_present_done: "outputs_present out_dir True batch_odd fs_done"
  by (simp add: outputs_present_def batch_odd_def out_dir_def fs_done_def)

lemma eta_count_append [simp]: "eta_count idx (xs @ ys) = eta_count idx xs + eta_count idx ys"
  by (simp add: eta_count_def)

lemma convert_Inr_events:
  assumes "convert enc idx p params output_path st = Inr st'"
  shows "(\<exists>e pb tb. events st' = events st @ [Encode output_path, e, Eta idx pb tb]
            \<and> e \<in> {OversizeCopied output_path, KeptConverted output_path, SizeCheckFailed output_path})
       \<or> events st' = events st @ [Encode output_path, EncodeFailed p]"
  using assms unfolding convert_def Let_def
  by (auto simp: size_check_def split: enc_result.splits if_splits option.splits)

lemma eta_once_unless_failed:
  assumes "resize_step enc outp nochange_copy idx a st = Inr st'"
  shows "eta_count idx (events st') =
     eta_count idx (events st) + (if EncodeFailed (fst a) \<in> set (drop (length (events st)) (events st')) then 0 else 1)"
proof -
  consider
    (skip) "skip_existing idx (fst a) (outp (fst a)) st = Inr st'"
  | (nochange) "no_change nochange_copy idx (fst a) (outp (fst a)) st = Inr st'"
  | (conv) "convert enc idx (fst a) (snd a) (outp (fst a)) st = Inr st'"
    using assms by (auto simp: resize_step_def Let_def split: if_splits)
  then show ?thesis
  proof cases
    case skip
    from skip_existing_Inr(2) [OF this] show ?thesis by (auto simp: eta_count_def)
  next
    case nochange
    from no_change_Inr(3) [OF this] show ?thesis by (auto simp: eta_count_def)
  next
    case conv
    from convert_Inr_events [OF this] show ?thesis by (auto simp: eta_count_def)
  qed
qed

text \<open>
  Claim C5. When the encoder exits with return code 0 and the output it leaves is
  strictly larger than the source, the step replaces the output by a verbatim copy of
  the source. Hence, in a run whose encoder always leaves an output larger than its
  input and whose output paths are distinct, every asset that requires a change and
  had no output ends with an output equal to its source, never the oversized file.
\<close>

theorem oversized_output_replaced_by_copy:
  "(files st p = Some src \<and> files st (outp p) = None \<and> change_required params
      \<and> enc (files st) p params (outp p) = EncExited 0 (Some c) \<and> length src < length c
    \<longrightarrow> (\<exists>st'. resize_step enc outp nochange_copy idx (p, params) st = Inr st'
           \<and> files st' = (files st)(outp p \<mapsto> src)))
   \<and> (always_larger enc \<and> distinct (map (\<lambda>a. outp (fst a)) batch)
      \<and> resize enc outp nochange_copy batch fs = Inr st2
      \<and> (q, prm) \<in> set batch \<and> change_required prm \<and> fs (outp q) = None
    \<longrightarrow> fs q \<noteq> None \<and> files st2 (outp q) = fs q)"
proof (intro conjI impI)
  assume a: "files st p = Some src \<and> files st (outp p) = None \<and> change_required params
      \<and> enc (files st) p params (outp p) = EncExited 0 (Some c) \<and> length src < length c"
  show "\<exists>st'. resize_step enc outp nochange_copy idx (p, params) st = Inr st'
           \<and> files st' = (files st)(outp p \<mapsto> src)"
    using resize_step_oversize [where enc = enc and outp = outp and st = st and p = p
        and params = params and src = src and c = c and nochange_copy = nochange_copy and idx = idx] a
    by simp
next
  assume b: "always_larger enc \<and> distinct (map (\<lambda>a. outp (fst a)) batch)
      \<and> resize enc outp nochange_copy batch fs = Inr st2
      \<and> (q, prm) \<in> set batch \<and> change_required prm \<and> fs (outp q) = None"
  then have "always_larger enc" "distinct (map (\<lambda>a. outp (fst a)) batch)"
    "resize enc outp nochange_copy batch fs = Inr st2"
    "(q, prm) \<in> set batch" "change_required prm" "fs (outp q) = None" by simp_all
  from resize_oversize [OF this] show "fs q \<noteq> None" "files st2 (outp q) = fs q" by simp_all
qed

theorem oversized_output_replaced_by_copy_witness:
  "always_larger bloating_encoder
   \<and> resize bloating_encoder out_dir True batch_odd fs_one =
       Inr \<lparr>files = fs_one(''out/a.mp4'' \<mapsto> [1, 2, 3]), total_bytes = 3, processed_bytes = 3,
            num_deletedVideos = 0,
            events = [Encode ''out/a.mp4'', OversizeCopied ''out/a.mp4'', Eta 0 3 3]\<rparr>
   \<and> fs_one ''a.mp4'' = Some [1, 2, 3]
   \<and> (fs_one(''out/a.mp4'' \<mapsto> [1, 2, 3])) (out_dir ''a.mp4'') = fs_one ''a.mp4''
   \<and> (\<exists>st'. resize_step bloating_encoder out_dir True 0 (''a.mp4'', plan_odd) (start_state fs_one 3) = Inr st'
         \<and> files st' = fs_one(''out/a.mp4'' \<mapsto> [1, 2, 3]))"
  using oversized_output_replaced_by_copy [where enc = bloating_encoder and outp = out_dir
      and nochange_copy = True and batch = batch_odd and fs = fs_one and q = "''a.mp4''"
      and prm = plan_odd and st = "start_state fs_one 3" and p = "''a.mp4''" and src = "[1, 2, 3]"
      and params = plan_odd and c = "[0, 1, 2, 3]" and idx = 0
      and ?st2.0 = "\<lparr>files = fs_one(''out/a.mp4'' \<mapsto> [1, 2, 3]), total_bytes = 3, processed_bytes = 3,
            num_deletedVideos = 0,
            events = [Encode ''out/a.mp4'', OversizeCopied ''out/a.mp4'', Eta 0 3 3]\<rparr>"]
    always_larger_bloating run_bloating
  by (simp add: batch_odd_def plan_odd_def fs_one_def out_dir_def start_state_def bloating_encoder_def)

text \<open>
  Claim C6, as the code has it. An asset whose output path exists is skipped: no file
  changes, and the log gains the skip and one estimate. A run on a file system where
  every asset that the run would write has its output changes no file and invokes
  the encoder for none. A run whose encoder always succeeds leaves such a file
  system, so that a second run after it converts nothing.
\<close>

theorem rerun_skips_existing_outputs:
  "(files st (outp p) \<noteq> None \<and> resize_step enc outp nochange_copy idx (p, params) st = Inr st'
    \<longrightarrow> files st' = files st
        \<and> (\<exists>pb tb. events st' = events st @ [SkipExists (outp p), Eta idx pb tb]))
   \<and> (outputs_present outp nochange_copy batch fs \<and> resize enc outp nochange_copy batch fs = Inr st2
    \<longrightarrow> files st2 = fs \<and> (\<forall>o'. Encode o' \<notin> set (events st2)))
   \<and> (always_succeeds enc1 \<and> resize enc1 outp nochange_copy batch fs1 = Inr st1
    \<longrightarrow> outputs_present outp nochange_copy batch (files st1))"
proof (intro conjI impI)
  assume "files st (outp p) \<noteq> None \<and> resize_step enc outp nochange_copy idx (p, params) st = Inr st'"
  then have a1: "files st (outp p) \<noteq> None"
    and a2: "resize_step enc outp nochange_copy idx (p, params) st = Inr st'" by simp_all
  have "skip_existing idx p (outp p) st = Inr st'"
    using a2 a1 by (simp add: resize_step_def Let_def)
  from skip_existing_Inr [OF this]
  show "files st' = files st" "\<exists>pb tb. events st' = events st @ [SkipExists (outp p), Eta idx pb tb]"
    by simp_all
next
  assume "outputs_present outp nochange_copy batch fs \<and> resize enc outp nochange_copy batch fs = Inr st2"
  then have "outputs_present outp nochange_copy batch fs"
    "resize enc outp nochange_copy batch fs = Inr st2" by simp_all
  from resize_present [OF this] show "files st2 = fs" "\<forall>o'. Encode o' \<notin> set (events st2)"
    by simp_all
next
  assume "always_succeeds enc1 \<and> resize enc1 outp nochange_copy batch fs1 = Inr st1"
  then have "always_succeeds enc1" "resize enc1 outp nochange_copy batch fs1 = Inr st1" by simp_all
  then show "outputs_present outp nochange_copy batch (files st1)" by (rule resize_establishes)
qed

lemma step_again:
  "resize_step failing_encoder out_dir True 0 (''a.mp4'', plan_odd) (start_state fs_done 3) =
     Inr \<lparr>files = fs_done, total_bytes = 0, processed_bytes = 0, num_deletedVideos = 1,
          events = [SkipExists ''out/a.mp4'', Eta 0 0 0]\<rparr>"
  by (simp add: getsize_def fs_one_def fs_done_def resize_step_def Let_def start_state_def
      out_dir_def skip_existing_def discount_def say_def eta_def)

theorem rerun_skips_existing_outputs_witness:
  "always_succeeds shrinking_encoder
   \<and> resize shrinking_encoder out_dir True batch_odd fs_one =
       Inr \<lparr>files = fs_done, total_bytes = 3, processed_bytes = 3, num_deletedVideos = 0,
            events = [Encode ''out/a.mp4'', KeptConverted ''out/a.mp4'', Eta 0 3 3]\<rparr>
   \<and> outputs_present out_dir True batch_odd fs_done
   \<and> resize failing_encoder out_dir True batch_odd fs_done =
       Inr \<lparr>files = fs_done, total_bytes = 0, processed_bytes = 0, num_deletedVideos = 1,
            events = [SkipExists ''out/a.mp4'', Eta 0 0 0]\<rparr>
   \<and> fs_done (out_dir ''a.mp4'') = Some [7]
   \<and> resize_step failing_encoder out_dir True 0 (''a.mp4'', plan_odd) (start_state fs_done 3) =
       Inr \<lparr>files = fs_done, total_bytes = 0, processed_bytes = 0, num_deletedVideos = 1,
            events = [SkipExists ''out/a.mp4'', Eta 0 0 0]\<rparr>"
  using rerun_skips_existing_outputs [where enc = failing_encoder and outp = out_dir
      and nochange_copy = True and batch = batch_odd and fs = fs_done
      and st = "start_state fs_done 3" and p = "''a.mp4''" and params = plan_odd and idx = 0
      and st' = "\<lparr>files = fs_done, total_bytes = 0, processed_bytes = 0, num_deletedVideos = 1,
            events = [SkipExists ''out/a.mp4'', Eta 0 0 0]\<rparr>"
      and ?st2.0 = "\<lparr>files = fs_done, total_bytes = 0, processed_bytes = 0, num_deletedVideos = 1,
            events = [SkipExists ''out/a.mp4'', Eta 0 0 0]\<rparr>"
      and ?enc1.0 = shrinking_encoder and ?fs1.0 = fs_one
      and ?st1.0 = "\<lparr>files = fs_done, total_bytes = 3, processed_bytes = 3, num_deletedVideos = 0,
            events = [Encode ''out/a.mp4'', KeptConverted ''out/a.mp4'', Eta 0 3 3]\<rparr>"]
    always_succeeds_shrinking run_shrinking outputs_present_done run_again step_again
  by (simp add: out_dir_def fs_done_def)

text \<open>
  Claim C6 as stated fails: after a first run in which the encoder failed, the output
  is still missing, and the second run does not skip the asset. It invokes the encoder
  again, and converts the file when the encoder then works.
\<close>

theorem failed_encoding_is_retried:
  "resize failing_encoder out_dir True batch_odd fs_one =
     Inr \<lparr>files = fs_one, total_bytes = 3, processed_bytes = 0, num_deletedVideos = 0,
          events = [Encode ''out/a.mp4'', EncodeFailed ''a.mp4'']\<rparr>
   \<and> fs_one (out_dir ''a.mp4'') = None
   \<and> resize failing_encoder out_dir True batch_odd fs_one \<noteq>
       Inr \<lparr>files = fs_one, total_bytes = 0, processed_bytes = 0, num_deletedVideos = 1,
            events = [SkipExists ''out/a.mp4'', Eta 0 0 0]\<rparr>
   \<and> resize shrinking_encoder out_dir True batch_odd fs_one =
       Inr \<lparr>files = fs_one(''out/a.mp4'' \<mapsto> [7]), total_bytes = 3, processed_bytes = 3,
            num_deletedVideos = 0,
            events = [Encode ''out/a.mp4'', KeptConverted ''out/a.mp4'', Eta 0 3 3]\<rparr>"
  using run_failing run_shrinking by (simp add: fs_one_def out_dir_def fs_done_def)

text \<open>
  Claim C9 at a failing input: a batch of one video whose encoder exits with return
  code 1. The run ends without an estimate for the video: both failure branches of
  \<^verbatim>\<open>resize\<close> go on to the next video with \<^verbatim>\<open>continue\<close> before the estimate is
  computed. Every other outcome logs exactly one (\<open>eta_once_unless_failed\<close>).
\<close>

theorem no_eta_after_failed_encoding:
  "resize failing_encoder out_dir True batch_odd fs_one =
     Inr \<lparr>files = fs_one, total_bytes = 3, processed_bytes = 0, num_deletedVideos = 0,
          events = [Encode ''out/a.mp4'', EncodeFailed ''a.mp4'']\<rparr>
   \<and> eta_count 0 [Encode ''out/a.mp4'', EncodeFailed ''a.mp4''] = 0"
  using run_failing by (simp add: eta_count_def)



section \<open>The bit rate ceiling\<close>

lemma fl_eval:
  assumes "2 powi e \<le> \<bar>x\<bar>" and "\<bar>x\<bar> < 2 powi (e + 1)" and "- 1022 \<le> e"
    and "\<bar>x / 2 powi (e - 52) - of_int m\<bar> < 1 / 2" and "r = of_int m * 2 powi (e - 52)"
  shows "fl x = r"
  using fl_eqI [OF assms(1-4)] assms(5) by simp

lemma py_mul_float_int:
  assumes "fl (x * of_int n) = r" and "\<bar>n\<bar> < 2 ^ 53" and "\<bar>r\<bar> \<le> 2 ^ 53"
  shows "py_mul (PFloat x) (PInt n) = Inr (PFloat r)"
  using assms by (simp add: fl_of_int finite_double_le)

lemma py_mul_float_float:
  assumes "fl (x * y) = r" and "\<bar>r\<bar> \<le> 2 ^ 53"
  shows "py_mul (PFloat x) (PFloat y) = Inr (PFloat r)"
  using assms by (simp add: finite_double_le)

lemma fl_036: "fl (36 / 1000) = 5188146770730811 / 2 ^ 57"
  by (rule fl_eval [where e = "- 5" and m = 5188146770730811]) simp_all

lemma bitrate_example:
  "bitrateFromBPP (fl (36 / 1000)) 1920 1080 (PFloat 30) = Inr (PFloat (2239488 - 1 / 2 ^ 31))"
proof -
  have 1: "py_mul (PFloat (5188146770730811 / 2 ^ 57)) (PInt 1920)
      = Inr (PFloat (4863887597560135 / 2 ^ 46))"
  proof (rule py_mul_float_int)
    show "fl (5188146770730811 / 2 ^ 57 * of_int 1920) = 4863887597560135 / 2 ^ 46"
      by (rule fl_eval [where e = 6 and m = 4863887597560135]) simp_all
  qed simp_all
  have 2: "py_mul (PFloat (4863887597560135 / 2 ^ 46)) (PInt 1080)
      = Inr (PFloat (5129881450551705 / 2 ^ 36))"
  proof (rule py_mul_float_int)
    show "fl (4863887597560135 / 2 ^ 46 * of_int 1080) = 5129881450551705 / 2 ^ 36"
      by (rule fl_eval [where e = 16 and m = 5129881450551705]) simp_all
  qed simp_all
  have 3: "py_mul (PFloat (5129881450551705 / 2 ^ 36)) (PFloat 30)
      = Inr (PFloat (2239488 - 1 / 2 ^ 31))"
  proof (rule py_mul_float_float)
    show "fl (5129881450551705 / 2 ^ 36 * 30) = 2239488 - 1 / 2 ^ 31"
      by (rule fl_eval [where e = 21 and m = 4809263859892223]) simp_all
  qed simp_all
  show ?thesis by (simp only: bitrateFromBPP_def fl_036 1 2 3 sum.case)
qed

lemma set_bit_rate_example_high:
  "set_bit_rate 5000000 (fl (36 / 1000)) 1920 1080 (PFloat 30) = Inr (PFloat (2239488 - 1 / 2 ^ 31))"
  unfolding set_bit_rate_def bitrate_example by (simp add: py_gt_def)

lemma set_bit_rate_example_low:
  "set_bit_rate 1000000 (fl (36 / 1000)) 1920 1080 (PFloat 30) = Inr (PInt 1000000)"
  unfolding set_bit_rate_def bitrate_example by (simp add: py_gt_def)

lemma set_bit_rate_min:
  assumes "set_bit_rate origin_bitrate bpp w h fps = Inr r"
  shows "\<exists>c. bitrateFromBPP bpp w h fps = Inr c
           \<and> py_val r = min (of_int origin_bitrate) (py_val c)"
  using assms unfolding set_bit_rate_def
  by (auto split: sum.splits simp: py_gt_def min_def)

lemma py_mul_Inr_val:
  assumes "py_mul (PFloat x) b = Inr c" and "to_float b = Inr y"
  shows "c = PFloat (fl (x * y))"
  using assms by (cases b) (auto simp: Let_def split: if_splits)

lemma bitrateFromBPP_val:
  assumes "bitrateFromBPP bpp w h (PFloat f) = Inr c" and "\<bar>w\<bar> < 2 ^ 53" and "\<bar>h\<bar> < 2 ^ 53"
  shows "c = PFloat (fl (fl (fl (bpp * of_int w) * of_int h) * f))"
proof -
  from assms(1) obtain p1 p2 where
    1: "py_mul (PFloat bpp) (PInt w) = Inr p1" and 2: "py_mul p1 (PInt h) = Inr p2"
    and 3: "py_mul p2 (PFloat f) = Inr c"
    unfolding bitrateFromBPP_def by (auto split: sum.splits)
  have p1: "p1 = PFloat (fl (bpp * of_int w))"
    using 1 to_float_int [OF assms(2)] by (rule py_mul_Inr_val)
  have p2: "p2 = PFloat (fl (fl (bpp * of_int w) * of_int h))"
    using 2 to_float_int [OF assms(3)] unfolding p1 by (rule py_mul_Inr_val)
  show ?thesis using 3 unfolding p2 by (rule py_mul_Inr_val) simp
qed

text \<open>
  Claim C7, as the code has it. The effective bit rate is the minimum of the native bit
  rate and the ceiling, and never exceeds the native bit rate. The ceiling is the
  product \<^verbatim>\<open>bpp * width * height * fps\<close> in double precision, rounded after each of
  the three multiplications. For \<^verbatim>\<open>bpp = 0.036\<close> (the double nearest to 0.036),
  1920 x 1080 and 30 fps it is \<open>2239488 - 1 / 2 ^ 31\<close>, which Python prints as
  \<^verbatim>\<open>2239487.9999999995\<close>: a native bit rate of 5000000 yields this value, one of
  1000000 yields 1000000. In \<^verbatim>\<open>video_resize.py\<close> the ceiling is the configured cap.
\<close>

theorem effective_bit_rate_is_min:
  "(set_bit_rate origin_bitrate bpp w h fps = Inr r \<longrightarrow>
      (\<exists>c. bitrateFromBPP bpp w h fps = Inr c
         \<and> py_val r = min (of_int origin_bitrate) (py_val c))
      \<and> py_val r \<le> of_int origin_bitrate)
   \<and> (bitrateFromBPP bpp w h (PFloat f) = Inr c \<and> \<bar>w\<bar> < 2 ^ 53 \<and> \<bar>h\<bar> < 2 ^ 53 \<longrightarrow>
      py_val c = fl (fl (fl (bpp * of_int w) * of_int h) * f))
   \<and> bitrateFromBPP (fl (36 / 1000)) 1920 1080 (PFloat 30) = Inr (PFloat (2239488 - 1 / 2 ^ 31))
   \<and> set_bit_rate 5000000 (fl (36 / 1000)) 1920 1080 (PFloat 30)
       = Inr (PFloat (2239488 - 1 / 2 ^ 31))
   \<and> set_bit_rate 1000000 (fl (36 / 1000)) 1920 1080 (PFloat 30) = Inr (PInt 1000000)
   \<and> set_bit_rate_cap origin_bitrate config_bitrate = min origin_bitrate config_bitrate"
proof -
  have 1: "set_bit_rate origin_bitrate bpp w h fps = Inr r \<longrightarrow>
      (\<exists>c. bitrateFromBPP bpp w h fps = Inr c
         \<and> py_val r = min (of_int origin_bitrate) (py_val c))
      \<and> py_val r \<le> of_int origin_bitrate"
  proof
    assume "set_bit_rate origin_bitrate bpp w h fps = Inr r"
    from set_bit_rate_min [OF this] show "(\<exists>c. bitrateFromBPP bpp w h fps = Inr c
         \<and> py_val r = min (of_int origin_bitrate) (py_val c))
      \<and> py_val r \<le> of_int origin_bitrate" by auto
  qed
  have 2: "bitrateFromBPP bpp w h (PFloat f) = Inr c \<and> \<bar>w\<bar> < 2 ^ 53 \<and> \<bar>h\<bar> < 2 ^ 53 \<longrightarrow>
      py_val c = fl (fl (fl (bpp * of_int w) * of_int h) * f)"
    using bitrateFromBPP_val [of bpp w h f c] by auto
  have 3: "set_bit_rate_cap origin_bitrate config_bitrate = min origin_bitrate config_bitrate"
    by (simp add: set_bit_rate_cap_def min_def)
  show ?thesis
    using 1 2 3 bitrate_example set_bit_rate_example_high set_bit_rate_example_low by blast
qed

theorem effective_bit_rate_is_min_witness:
  "set_bit_rate 5000000 (fl (36 / 1000)) 1920 1080 (PFloat 30) = Inr (PFloat (2239488 - 1 / 2 ^ 31))
   \<and> (2239488 - 1 / 2 ^ 31 :: rat) \<le> 5000000
   \<and> fl (fl (fl (fl (36 / 1000) * 1920) * 1080) * 30) = 2239488 - 1 / 2 ^ 31"
  using effective_bit_rate_is_min [of 5000000 "fl (36 / 1000)" 1920 1080 "PFloat 30"
      "PFloat (2239488 - 1 / 2 ^ 31)" 30 "PFloat (2239488 - 1 / 2 ^ 31)"]
  by simp

text \<open>
  Claim C7 as stated fails in its example: the ceiling that the code computes for
  \<^verbatim>\<open>bpp = 0.036\<close>, 1920 x 1080 and 30 fps is not 2239488, and neither is the
  effective bit rate for a native bit rate of 5000000.
\<close>

theorem bit_rate_ceiling_example_rounds:
  "bitrateFromBPP (fl (36 / 1000)) 1920 1080 (PFloat 30) = Inr (PFloat (2239488 - 1 / 2 ^ 31))
   \<and> (2239488 - 1 / 2 ^ 31 :: rat) \<noteq> 2239488
   \<and> set_bit_rate 5000000 (fl (36 / 1000)) 1920 1080 (PFloat 30) \<noteq> Inr (PFloat 2239488)
   \<and> set_bit_rate 5000000 (fl (36 / 1000)) 1920 1080 (PFloat 30) \<noteq> Inr (PInt 2239488)"
  unfolding set_bit_rate_example_high bitrate_example by simp

section \<open>Properties of the probe\<close>

lemma not_operator_digit: "is_digit c \<Longrightarrow> \<not> is_operator c"
  by (auto simp: is_digit_def is_operator_def)

lemma split_ops_digits: "list_all is_digit d \<Longrightarrow> split_ops d = (d, [])"
  by (induction d) (simp_all add: not_operator_digit)

lemma split_ops_rational:
  "list_all is_digit n \<Longrightarrow> list_all is_digit d \<Longrightarrow>
   split_ops (n @ CHR ''/'' # d) = (n, [(CHR ''/'', d)])"
proof (induction n)
  case Nil
  then show ?case by (simp add: split_ops_digits is_operator_def)
next
  case (Cons a n)
  then have "\<not> is_operator a" by (simp add: not_operator_digit)
  then show ?case using Cons by simp
qed

lemma takeWhile_digits:
  "list_all is_digit n \<Longrightarrow> takeWhile (\<lambda>c. c \<noteq> CHR ''/'') (n @ CHR ''/'' # d) = n"
  by (induction n) (auto simp: is_digit_def)

lemma dropWhile_digits:
  "list_all is_digit n \<Longrightarrow> dropWhile (\<lambda>c. c \<noteq> CHR ''/'') (n @ CHR ''/'' # d) = CHR ''/'' # d"
  by (induction n) (auto simp: is_digit_def)

lemma py_float_truediv: "(case py_truediv a b of Inl e \<Rightarrow> Some (Inl e) | Inr v \<Rightarrow> Some (py_float v)) = Some (py_truediv a b)"
  by (simp add: py_truediv_def py_float_def Let_def)

lemma avg_frame_rate_rational:
  assumes "numeral_string n" and "numeral_string d" and "literal_ok n" and "literal_ok d"
  shows "avg_frame_rate (Some (n @ CHR ''/'' # d)) = Some (py_truediv (dec n) (dec d))"
proof -
  have dn: "list_all is_digit n" and dd: "list_all is_digit d"
    using assms(1,2) by (simp_all add: numeral_string_def)
  have "eval_ops (PInt (dec n)) [(CHR ''/'', d)] = py_truediv (dec n) (dec d)"
    by (cases "py_truediv (dec n) (dec d)") simp_all
  then have "py_eval (n @ CHR ''/'' # d) = Some (py_truediv (dec n) (dec d))"
    using assms by (simp add: py_eval_def split_ops_rational [OF dn dd])
  then show ?thesis
    using py_float_truediv [of "dec n" "dec d"]
    by (simp add: avg_frame_rate_def split: sum.splits)
qed

lemma parse_rational_rational:
  assumes "numeral_string n" and "numeral_string d"
  shows "parse_rational (n @ CHR ''/'' # d) = Some (py_truediv (dec n) (dec d))"
proof -
  have dn: "list_all is_digit n" using assms(1) by (simp add: numeral_string_def)
  show ?thesis
    using assms by (simp add: parse_rational_def split_rational_def Let_def
        takeWhile_digits [OF dn] dropWhile_digits [OF dn])
qed

lemma dec_30000: "dec ''30000'' = 30000"
  by (simp add: dec_def digit_val_def)

lemma dec_1001: "dec ''1001'' = 1001"
  by (simp add: dec_def digit_val_def)

lemma numeral_30000: "numeral_string ''30000'' \<and> literal_ok ''30000''"
  by (simp add: numeral_string_def literal_ok_def is_digit_def)

lemma numeral_1001: "numeral_string ''1001'' \<and> literal_ok ''1001''"
  by (simp add: numeral_string_def literal_ok_def is_digit_def)

lemma truediv_30000_1001:
  "py_truediv 30000 1001 = Inr (PFloat (8435813487831848 / 2 ^ 48))"
proof -
  have "fl (of_int 30000 / of_int 1001) = 8435813487831848 / 2 ^ 48"
    by (rule fl_eval [where e = 4 and m = 8435813487831848]) simp_all
  then show ?thesis by (simp only: py_truediv_def Let_def) (simp add: finite_double_le)
qed

lemma eval_product: "avg_frame_rate (Some ''2*3'') = Some (Inr (PFloat 6))"
  by (simp add: avg_frame_rate_def py_eval_def is_operator_def numeral_string_def literal_ok_def
      is_digit_def dec_def digit_val_def py_float_def fl_numeral finite_double_le)

lemma parse_product: "parse_rational ''2*3'' = None"
  by (simp add: parse_rational_def split_rational_def)

text \<open>
  Claim C1, as the code has it. For a string \<^verbatim>\<open>N/D\<close> of two decimal integer literals
  the frame rate is the quotient of the two integers, correctly rounded to a double
  (\<^verbatim>\<open>ZeroDivisionError\<close> when \<^verbatim>\<open>D\<close> is zero), and this is what splitting the string
  and dividing returns.
\<close>

theorem frame_rate_of_rational_string:
  assumes "numeral_string n" and "numeral_string d" and "literal_ok n" and "literal_ok d"
  shows "avg_frame_rate (Some (n @ ''/'' @ d)) = Some (py_truediv (dec n) (dec d))
    \<and> avg_frame_rate (Some (n @ ''/'' @ d)) = parse_rational (n @ ''/'' @ d)"
  using avg_frame_rate_rational [OF assms] parse_rational_rational [OF assms(1,2)] by simp

theorem frame_rate_of_rational_string_witness:
  "numeral_string ''30000'' \<and> literal_ok ''30000'' \<and> numeral_string ''1001'' \<and> literal_ok ''1001''
   \<and> avg_frame_rate (Some ''30000/1001'') = Some (Inr (PFloat (8435813487831848 / 2 ^ 48)))
   \<and> avg_frame_rate (Some ''30000/1001'') = parse_rational ''30000/1001''"
proof -
  have n: "numeral_string ''30000''" "literal_ok ''30000''"
    and d: "numeral_string ''1001''" "literal_ok ''1001''"
    using numeral_30000 numeral_1001 by simp_all
  note t = frame_rate_of_rational_string [OF n(1) d(1) n(2) d(2)]
  have a: "avg_frame_rate (Some ''30000/1001'') = Some (py_truediv 30000 1001)"
    using t [THEN conjunct1] by (simp add: dec_30000 dec_1001)
  have b: "avg_frame_rate (Some ''30000/1001'') = parse_rational ''30000/1001''"
    using t [THEN conjunct2] by simp
  have c: "avg_frame_rate (Some ''30000/1001'') = Some (Inr (PFloat (8435813487831848 / 2 ^ 48)))"
    using a unfolding truediv_30000_1001 .
  show ?thesis using n d b c by blast
qed

text \<open>
  Claim C1 as stated fails: the code calls \<^verbatim>\<open>eval\<close>, so a string that is not of the
  form \<^verbatim>\<open>N/D\<close> is evaluated as an expression. The string \<^verbatim>\<open>2*3\<close>, which a parser
  that splits at the \<^verbatim>\<open>/\<close> refuses, yields the frame rate 6.0.
\<close>

theorem frame_rate_evaluates_expressions:
  "avg_frame_rate (Some ''2*3'') = Some (Inr (PFloat 6)) \<and> parse_rational ''2*3'' = None"
  using eval_product parse_product by simp

section \<open>Bounds on the resolved size\<close>

lemma py_int_float_mono: "x \<le> y \<Longrightarrow> py_int (PFloat x) \<le> py_int (PFloat y)"
proof -
  assume xy: "x \<le> y"
  consider "0 \<le> x" | "x < 0" "0 \<le> y" | "y < 0" using xy by linarith
  then show ?thesis
  proof cases
    case 1
    then show ?thesis using xy by (simp add: floor_mono)
  next
    case 2
    have c: "\<lceil>x\<rceil> \<le> 0" using 2(1) by (simp add: ceiling_le_iff)
    have f: "0 \<le> \<lfloor>y\<rfloor>" using 2(2) by simp
    have "py_int (PFloat x) = \<lceil>x\<rceil>" "py_int (PFloat y) = \<lfloor>y\<rfloor>" using 2 by simp_all
    then show ?thesis using c f by linarith
  next
    case 3
    then show ?thesis using xy by (simp add: ceiling_mono)
  qed
qed






lemma scale_int_one: "scale origin (PInt 1) = Inr origin"
  by (simp add: scale_def)

lemma scale_float:
  assumes "\<bar>origin\<bar> < 2 ^ 53" and "finite_double (fl (of_int origin * x))"
  shows "scale origin (PFloat x) = Inr (py_int (PFloat (fl (of_int origin * x))))"
  using assms by (simp add: scale_def fl_of_int finite_double_le Let_def)

lemma scale_float_Inr:
  assumes "\<bar>origin\<bar> < 2 ^ 53" and "scale origin (PFloat x) = Inr k"
  shows "k = py_int (PFloat (fl (of_int origin * x)))"
  using assms
  by (auto simp: scale_def fl_of_int finite_double_le Let_def split: if_splits sum.splits py_error.splits)

lemma scale_val:
  assumes "\<bar>origin\<bar> < 2 ^ 53" and "r = PInt 1 \<or> (\<exists>x. r = PFloat x)" and "scale origin r = Inr k"
  shows "k = py_int (PFloat (fl (of_int origin * py_val r)))"
proof (cases "r = PInt 1")
  case True
  then have "k = origin" using assms(3) by (simp add: scale_int_one)
  moreover have "py_int (PFloat (fl (of_int origin * py_val r))) = origin"
    using True fl_of_int [OF assms(1)] by simp
  ultimately show ?thesis by simp
next
  case False
  then obtain x where "r = PFloat x" using assms(2) by auto
  then show ?thesis using scale_float_Inr [OF assms(1)] assms(3) by simp
qed

lemma scale_mono:
  assumes "0 \<le> origin" and "origin < 2 ^ 53"
    and "a = PInt 1 \<or> (\<exists>x. a = PFloat x)" and "b = PInt 1 \<or> (\<exists>x. b = PFloat x)"
    and "py_val a \<le> py_val b" and "scale origin a = Inr k" and "scale origin b = Inr l"
  shows "k \<le> l"
proof -
  have o: "\<bar>origin\<bar> < 2 ^ 53" using assms(1,2) by simp
  have "of_int origin * py_val a \<le> of_int origin * py_val b"
    using assms(1,5) by (simp add: mult_left_mono)
  then have "fl (of_int origin * py_val a) \<le> fl (of_int origin * py_val b)" by (rule fl_mono)
  then have "py_int (PFloat (fl (of_int origin * py_val a))) \<le> py_int (PFloat (fl (of_int origin * py_val b)))"
    by (rule py_int_float_mono)
  then show ?thesis
    using scale_val [OF o assms(3) assms(6)] scale_val [OF o assms(4) assms(7)] by simp
qed










lemma fl_1024th: "fl (1 / 1024) = 1 / 1024"
  using fl_fix [of 1 "- 10"] by simp

lemma fl_three_quarters: "fl (3 / 4) = 3 / 4"
  using fl_fix [of 3 "- 2"] by simp

lemma resized_min_upscales:
  "resized (100, 100) (ToTarget Fullhd) (200, 200) DirXY = Inr (200, 200)"
  by (simp add: resized_def target_ratio_def axis_ratio_def py_min_def py_max_def scale_size_def
      scale_def below_min_def min_ratio_def py_truediv_def fl_numeral fl_of_int finite_double_le)

lemma set_size_min_upscales:
  "set_size (100, 100) (ToTarget Fullhd) (200, 200) DirXY = Inr (200, 200)"
  by (simp add: set_size_def resized_min_upscales even_up_def)




lemma mode_ratio_x_half:
  "mode_ratio (1024, 128) (ToTarget (Custom 512 512)) DirX = Inr (PFloat (1 / 2))"
  by (simp add: target_ratio_def axis_ratio_def py_truediv_def fl_half finite_double_le)

lemma scale_size_x_half: "scale_size (1024, 128) (PFloat (1 / 2)) = Inr (512, 64)"
  by (simp add: scale_size_def scale_def fl_numeral fl_of_int finite_double_le)

lemma min_ratio_x_half:
  "min_ratio (1024, 128) (1, 96) DirX (PFloat (1 / 2)) = Inr (PFloat (1 / 2))"
  by (simp add: min_ratio_def py_truediv_def py_max_def fl_1024th fl_three_quarters finite_double_le)

lemma resized_x_below_min:
  "resized (1024, 128) (ToTarget (Custom 512 512)) (1, 96) DirX = Inr (512, 64)"
  unfolding resized_def mode_ratio_x_half
  by (simp add: scale_size_x_half below_min_def min_ratio_x_half)

lemma set_size_x_below_min:
  "set_size (1024, 128) (ToTarget (Custom 512 512)) (1, 96) DirX = Inr (512, 64)"
  by (simp add: set_size_def resized_x_below_min even_up_def)

lemma mode_ratio_fullhd_100: "mode_ratio (100, 100) (ToTarget Fullhd) DirXY = Inr (PInt 1)"
  by (simp add: target_ratio_def axis_ratio_def py_min_def)

lemma scale_size_100: "scale_size (100, 100) (PInt 1) = Inr (100, 100)"
  by (simp add: scale_size_def scale_def)

lemma scale_100_2: "scale 100 (PFloat (fl (of_int 200 / of_int 100))) = Inr 200"
  by (simp add: scale_def fl_numeral fl_of_int finite_double_le)

lemma axis_ratio_shape:
  "axis_ratio target origin = Inr a \<Longrightarrow> a = PInt 1 \<or> (\<exists>x. a = PFloat x)"
  by (auto simp: axis_ratio_def py_truediv_def Let_def split: if_splits)

lemma py_min_shape:
  "a = PInt 1 \<or> (\<exists>x. a = PFloat x) \<Longrightarrow> b = PInt 1 \<or> (\<exists>x. b = PFloat x) \<Longrightarrow>
   py_min a b = PInt 1 \<or> (\<exists>x. py_min a b = PFloat x)"
  by (auto simp: py_min_def)

lemma mode_ratio_shape:
  assumes "mode_ratio origin_size mode dir = Inr ratio"
  shows "ratio = PInt 1 \<or> (\<exists>x. ratio = PFloat x)"
proof (cases mode)
  case (ToTarget m)
  from assms obtain a b where
    a: "axis_ratio (fst (preset_sizes m)) (fst origin_size) = Inr a"
    and b: "axis_ratio (snd (preset_sizes m)) (snd origin_size) = Inr b"
    and r: "ratio = (case dir of DirX \<Rightarrow> a | DirY \<Rightarrow> b | DirXY \<Rightarrow> py_min a b)"
    unfolding ToTarget by (auto simp: target_ratio_def split: sum.splits)
  note sa = axis_ratio_shape [OF a] and sb = axis_ratio_shape [OF b]
  show ?thesis unfolding r using sa sb py_min_shape [OF sa sb] by (cases dir) simp_all
next
  case (Divide r)
  then show ?thesis using assms by auto
qed

lemma py_max_props:
  assumes "a = PInt 1 \<or> (\<exists>x. a = PFloat x)" and "b = PInt 1 \<or> (\<exists>x. b = PFloat x)"
  shows "(py_max a b = PInt 1 \<or> (\<exists>x. py_max a b = PFloat x))
     \<and> py_val a \<le> py_val (py_max a b) \<and> py_val b \<le> py_val (py_max a b)"
  using assms by (auto simp: py_max_def)

lemma py_truediv_Inr:
  "py_truediv a b = Inr r \<Longrightarrow> r = PFloat (fl (of_int a / of_int b))"
  by (auto simp: py_truediv_def Let_def split: if_splits)

lemma min_ratio_props:
  assumes "ratio = PInt 1 \<or> (\<exists>x. ratio = PFloat x)"
    and "min_ratio (ow, oh) (mw, mh) dir ratio = Inr ratio'"
  shows "(ratio' = PInt 1 \<or> (\<exists>x. ratio' = PFloat x))
     \<and> (dir \<noteq> DirY \<longrightarrow> fl (of_int mw / of_int ow) \<le> py_val ratio')
     \<and> (dir \<noteq> DirX \<longrightarrow> fl (of_int mh / of_int oh) \<le> py_val ratio')"
proof -
  from assms(2) obtain rw rh where
    rw: "py_truediv mw ow = Inr rw" and rh: "py_truediv mh oh = Inr rh"
    and r: "ratio' = (case dir of DirX \<Rightarrow> py_max ratio rw | DirY \<Rightarrow> py_max ratio rh
                      | DirXY \<Rightarrow> py_max (py_max ratio rw) rh)"
    by (auto simp: min_ratio_def split: sum.splits)
  have vw: "rw = PFloat (fl (of_int mw / of_int ow))" using rw by (rule py_truediv_Inr)
  have vh: "rh = PFloat (fl (of_int mh / of_int oh))" using rh by (rule py_truediv_Inr)
  have sw: "rw = PInt 1 \<or> (\<exists>x. rw = PFloat x)" and sh: "rh = PInt 1 \<or> (\<exists>x. rh = PFloat x)"
    using vw vh by simp_all
  note m1 = py_max_props [OF assms(1) sw]
  note m2 = py_max_props [OF assms(1) sh]
  have s1: "py_max ratio rw = PInt 1 \<or> (\<exists>x. py_max ratio rw = PFloat x)" using m1 by simp
  note m3 = py_max_props [OF s1 sh]
  show ?thesis
  proof (cases dir)
    case DirX
    then show ?thesis using r m1 vw by simp
  next
    case DirY
    then show ?thesis using r m2 vh by simp
  next
    case DirXY
    have "py_val rw \<le> py_val (py_max (py_max ratio rw) rh)" using m1 m3 by linarith
    then show ?thesis using DirXY r m3 vw vh by simp
  qed
qed

lemma minimum_wins:
  assumes o: "0 < ow" "ow < 2 ^ 53" "0 < oh" "oh < 2 ^ 53"
    and mr: "mode_ratio (ow, oh) mode dir = Inr ratio"
    and ss: "scale_size (ow, oh) ratio = Inr new_size" and bm: "below_min new_size (mw, mh)"
    and res: "set_size (ow, oh) mode (mw, mh) dir = Inr (w, h)"
  shows "(dir \<noteq> DirY \<and> scale ow (PFloat (fl (of_int mw / of_int ow))) = Inr mw \<longrightarrow> mw \<le> w)
       \<and> (dir \<noteq> DirX \<and> scale oh (PFloat (fl (of_int mh / of_int oh))) = Inr mh \<longrightarrow> mh \<le> h)"
proof -
  from set_size_resized [OF res] obtain w0 h0 where
    r0: "resized (ow, oh) mode (mw, mh) dir = Inr (w0, h0)" and wh: "(w, h) = (even_up w0, even_up h0)"
    by blast
  have w: "w0 \<le> w" and h: "h0 \<le> h" using wh by (simp_all add: even_up_cases)
  from r0 mr ss bm obtain ratio' where
    mnr: "min_ratio (ow, oh) (mw, mh) dir ratio = Inr ratio'"
    and ss': "scale_size (ow, oh) ratio' = Inr (w0, h0)"
    by (auto simp: resized_def split: sum.splits)
  from ss' have sw: "scale ow ratio' = Inr w0" and sh: "scale oh ratio' = Inr h0"
    by (auto simp: scale_size_def split: sum.splits)
  note shape = mode_ratio_shape [OF mr]
  from min_ratio_props [OF shape mnr]
  have shape': "ratio' = PInt 1 \<or> (\<exists>x. ratio' = PFloat x)"
    and vw: "dir \<noteq> DirY \<longrightarrow> fl (of_int mw / of_int ow) \<le> py_val ratio'"
    and vh: "dir \<noteq> DirX \<longrightarrow> fl (of_int mh / of_int oh) \<le> py_val ratio'"
    by simp_all
  have o0: "0 \<le> ow" "0 \<le> oh" using o by simp_all
  have 1: "dir \<noteq> DirY \<and> scale ow (PFloat (fl (of_int mw / of_int ow))) = Inr mw \<longrightarrow> mw \<le> w"
  proof
    assume a: "dir \<noteq> DirY \<and> scale ow (PFloat (fl (of_int mw / of_int ow))) = Inr mw"
    then have le: "py_val (PFloat (fl (of_int mw / of_int ow))) \<le> py_val ratio'" using vw by simp
    have "mw \<le> w0"
      using scale_mono [OF o0(1) o(2) _ shape' le _ sw] a by simp
    then show "mw \<le> w" using w by simp
  qed
  have 2: "dir \<noteq> DirX \<and> scale oh (PFloat (fl (of_int mh / of_int oh))) = Inr mh \<longrightarrow> mh \<le> h"
  proof
    assume a: "dir \<noteq> DirX \<and> scale oh (PFloat (fl (of_int mh / of_int oh))) = Inr mh"
    then have le: "py_val (PFloat (fl (of_int mh / of_int oh))) \<le> py_val ratio'" using vh by simp
    have "mh \<le> h0"
      using scale_mono [OF o0(2) o(4) _ shape' le _ sh] a by simp
    then show "mh \<le> h" using h by simp
  qed
  show ?thesis using 1 2 by simp
qed




text \<open>
  The proviso of the next theorem is needed: in double precision
  \<^verbatim>\<open>49 * (1 / 49)\<close> is \<open>1 - 1 / 2 ^ 53\<close>, which \<^verbatim>\<open>int()\<close> truncates to 0. A
  49 x 49 video in mode \<^verbatim>\<open>divide\<close> with the factor 0.01 and the minimum size
  1 x 1 is resolved to 0 x 0.
\<close>

lemma fl_hundredth: "fl (1 / 100) = 5764607523034235 / 2 ^ 59"
  by (rule fl_eval [where e = "- 7" and m = 5764607523034235]) simp_all

lemma scale_49_hundredth: "scale 49 (PFloat (5764607523034235 / 2 ^ 59)) = Inr 0"
proof -
  have f: "fl (of_int 49 * (5764607523034235 / 2 ^ 59)) = 8827055269646172 / 2 ^ 54"
    by (rule fl_eval [where e = "- 2" and m = 8827055269646172]) simp_all
  have "scale 49 (PFloat (5764607523034235 / 2 ^ 59))
      = Inr (py_int (PFloat (fl (of_int 49 * (5764607523034235 / 2 ^ 59)))))"
  proof (rule scale_float)
    show "\<bar>49 :: int\<bar> < 2 ^ 53" by simp
    show "finite_double (fl (of_int 49 * (5764607523034235 / 2 ^ 59)))"
      unfolding f by (rule finite_double_le) simp
  qed
  then show ?thesis unfolding f by (simp add: floor_eq_iff)
qed

lemma truediv_1_49: "py_truediv 1 49 = Inr (PFloat (5882252574524729 / 2 ^ 58))"
proof -
  have "fl (of_int 1 / of_int 49) = 5882252574524729 / 2 ^ 58"
    by (rule fl_eval [where e = "- 6" and m = 5882252574524729]) simp_all
  then show ?thesis by (simp only: py_truediv_def Let_def) (simp add: finite_double_le)
qed

lemma fl_49_times_49th: "fl (of_int 49 * (5882252574524729 / 2 ^ 58)) = 1 - 1 / 2 ^ 53"
  by (rule fl_eval [where e = "- 1" and m = 9007199254740991]) simp_all

lemma scale_49_49th: "scale 49 (PFloat (5882252574524729 / 2 ^ 58)) = Inr 0"
proof -
  have "scale 49 (PFloat (5882252574524729 / 2 ^ 58))
      = Inr (py_int (PFloat (fl (of_int 49 * (5882252574524729 / 2 ^ 58)))))"
  proof (rule scale_float)
    show "\<bar>49 :: int\<bar> < 2 ^ 53" by simp
    show "finite_double (fl (of_int 49 * (5882252574524729 / 2 ^ 58)))"
      unfolding fl_49_times_49th by (rule finite_double_le) simp
  qed
  then show ?thesis unfolding fl_49_times_49th by (simp add: floor_eq_iff)
qed

lemma min_ratio_49:
  "min_ratio (49, 49) (1, 1) DirXY (PFloat (5764607523034235 / 2 ^ 59))
     = Inr (PFloat (5882252574524729 / 2 ^ 58))"
  unfolding min_ratio_def fst_conv snd_conv truediv_1_49 by (simp add: py_max_def)

lemma round_trip_slip:
  "scale 49 (PFloat (fl (of_int 1 / of_int 49))) = Inr 0
   \<and> set_size (49, 49) (Divide (fl (1 / 100))) (1, 1) DirXY = Inr (0, 0)"
proof -
  have "fl (of_int 1 / of_int 49) = 5882252574524729 / 2 ^ 58"
    by (rule fl_eval [where e = "- 6" and m = 5882252574524729]) simp_all
  then have 1: "scale 49 (PFloat (fl (of_int 1 / of_int 49))) = Inr 0"
    by (simp only: scale_49_49th)
  have ss: "scale_size (49, 49) (PFloat (5764607523034235 / 2 ^ 59)) = Inr (0, 0)"
    unfolding scale_size_def fst_conv snd_conv scale_49_hundredth by simp
  have ss': "scale_size (49, 49) (PFloat (5882252574524729 / 2 ^ 58)) = Inr (0, 0)"
    unfolding scale_size_def fst_conv snd_conv scale_49_49th by simp
  have bm: "below_min (0, 0) (1, 1)" by (simp add: below_min_def)
  have "resized (49, 49) (Divide (fl (1 / 100))) (1, 1) DirXY = Inr (0, 0)"
    by (simp only: resized_def fl_hundredth mode_ratio.simps sum.case ss bm if_True min_ratio_49 ss')
  then have 2: "set_size (49, 49) (Divide (fl (1 / 100))) (1, 1) DirXY = Inr (0, 0)"
    by (simp add: set_size_def even_up_def)
  show ?thesis using 1 2 by simp
qed

text \<open>
  Claim C3, as the code has it. When the size that the mode asks for is below the
  minimum size on some axis, the new ratio is at least the minimum-driven ratio of
  the axes that the limit direction names: the width for \<^verbatim>\<open>x\<close>, the height for
  \<^verbatim>\<open>y\<close>, both for \<^verbatim>\<open>xy\<close>. On such an axis the output is at least the minimum,
  provided \<^verbatim>\<open>int(origin * (minimum / origin))\<close> gives the minimum back in double
  precision.
\<close>

theorem minimum_wins_on_limit_axis:
  assumes "0 < ow" and "ow < 2 ^ 53" and "0 < oh" and "oh < 2 ^ 53"
    and "mode_ratio (ow, oh) mode dir = Inr ratio"
    and "scale_size (ow, oh) ratio = Inr new_size" and "below_min new_size (mw, mh)"
    and "set_size (ow, oh) mode (mw, mh) dir = Inr (w, h)"
  shows "(dir \<noteq> DirY \<and> scale ow (PFloat (fl (of_int mw / of_int ow))) = Inr mw \<longrightarrow> mw \<le> w)
       \<and> (dir \<noteq> DirX \<and> scale oh (PFloat (fl (of_int mh / of_int oh))) = Inr mh \<longrightarrow> mh \<le> h)"
  using assms by (rule minimum_wins)

theorem minimum_wins_on_limit_axis_witness:
  "(0 :: int) < 100 \<and> (100 :: int) < 2 ^ 53
   \<and> mode_ratio (100, 100) (ToTarget Fullhd) DirXY = Inr (PInt 1)
   \<and> scale_size (100, 100) (PInt 1) = Inr (100, 100) \<and> below_min (100, 100) (200, 200)
   \<and> set_size (100, 100) (ToTarget Fullhd) (200, 200) DirXY = Inr (200, 200)
   \<and> scale 100 (PFloat (fl (of_int 200 / of_int 100))) = Inr 200
   \<and> (200 :: int) \<le> 200"
proof -
  have b: "(0 :: int) < 100" "(100 :: int) < 2 ^ 53" by simp_all
  have bm: "below_min (100, 100) (200, 200)" by (simp add: below_min_def)
  from minimum_wins_on_limit_axis [OF b b mode_ratio_fullhd_100 scale_size_100 bm set_size_min_upscales]
    scale_100_2
  have "(200 :: int) \<le> 200" by simp
  then show ?thesis
    using b bm mode_ratio_fullhd_100 scale_size_100 set_size_min_upscales scale_100_2 by blast
qed

text \<open>
  Claim C3 as stated fails: with limit direction \<^verbatim>\<open>x\<close> only the width's minimum
  enters the new ratio. Here the mode asks for 512 x 64, the height 64 is below the
  minimum 96, and the output is still 512 x 64.
\<close>

theorem minimum_ignored_off_the_limit_axis:
  "mode_ratio (1024, 128) (ToTarget (Custom 512 512)) DirX = Inr (PFloat (1 / 2))
   \<and> scale_size (1024, 128) (PFloat (1 / 2)) = Inr (512, 64)
   \<and> below_min (512, 64) (1, 96)
   \<and> set_size (1024, 128) (ToTarget (Custom 512 512)) (1, 96) DirX = Inr (512, 64)
   \<and> (64 :: int) < 96"
  using mode_ratio_x_half scale_size_x_half set_size_x_below_min by (simp add: below_min_def)

end
